theory Spec2Isabelle
  imports Main
begin

section \<open>Inheritance trees: types and objects\<close>

text \<open>
  The program declares trees as class types: \<^verbatim>\<open>LeafNode<Name, T>\<close> holds one scalar
  \<^verbatim>\<open>val\<close> of type \<^verbatim>\<open>T\<close>, and \<^verbatim>\<open>InternalNode<Name, ChildNodes...>\<close> inherits from each of
  its child node types. A name is an \<^verbatim>\<open>mpl::string\<close>, read through \<^verbatim>\<open>mpl::c_str\<close>.
  The scalar types and their values are kept abstract: \<open>'t\<close> stands for the declared
  scalar type \<^verbatim>\<open>T\<close> and \<open>'v\<close> for the values of all scalar types.
\<close>

type_synonym name = string

datatype 't ntype =
    LeafT name 't
  | InternalT name "'t ntype list"

text \<open>
  An object carries its class type: a leaf object is its \<^verbatim>\<open>val\<close>, an internal object is
  the sequence of its base-class subobjects, in the order of the base-specifier list.
\<close>

datatype ('t, 'v) node =
    LeafNode name 't 'v
  | InternalNode name "('t, 'v) node list"

fun node_type :: "('t, 'v) node \<Rightarrow> 't ntype" where
  "node_type (LeafNode n t v) = LeafT n t"
| "node_type (InternalNode n cs) = InternalT n (map node_type cs)"

text \<open>\<^verbatim>\<open>using base_type = mpl::vector< ChildNodes... >\<close>; a leaf type has no such member.\<close>

fun base_type :: "'t ntype \<Rightarrow> 't ntype list" where
  "base_type (InternalT n cs) = cs"
| "base_type (LeafT n t) = []"

text \<open>All base-class subobjects of an object, direct and indirect, and their types.\<close>

fun bases :: "('t, 'v) node \<Rightarrow> ('t, 'v) node list" where
  "bases (LeafNode n t v) = []"
| "bases (InternalNode n cs) = concat (map (\<lambda>c. c # bases c) cs)"

fun type_bases :: "'t ntype \<Rightarrow> 't ntype list" where
  "type_bases (LeafT n t) = []"
| "type_bases (InternalT n cs) = concat (map (\<lambda>c. c # type_bases c) cs)"

fun tsize :: "'t ntype \<Rightarrow> nat" where
  "tsize (LeafT n t) = 1"
| "tsize (InternalT n cs) = Suc (sum_list (map tsize cs))"

subsection \<open>get: the conversion of a parent object to one of its bases\<close>

text \<open>
  \<^verbatim>\<open>template< typename Child, typename Parent > Child& get(Parent& p) { return p; }\<close>
  The conversion is the identity when the two types are the same, selects the base-class
  subobject of type \<^verbatim>\<open>Child\<close> when there is exactly one, and is ill-formed (\<open>None\<close>: the
  program is rejected by the compiler) when \<^verbatim>\<open>Child\<close> is not a base or is an ambiguous
  base of \<^verbatim>\<open>Parent\<close>. The result is a reference: \<open>put\<close> stores through it.
\<close>

definition get :: "'t ntype \<Rightarrow> ('t, 'v) node \<Rightarrow> ('t, 'v) node option" where
  "get Child p =
     (if node_type p = Child then Some p
      else (case filter (\<lambda>b. node_type b = Child) (bases p) of
              [c] \<Rightarrow> Some c
            | _ \<Rightarrow> None))"

fun put :: "'t ntype \<Rightarrow> ('t, 'v) node \<Rightarrow> ('t, 'v) node \<Rightarrow> ('t, 'v) node" where
  "put Child c (LeafNode n t v) = (if LeafT n t = Child then c else LeafNode n t v)"
| "put Child c (InternalNode n cs) =
     (if InternalT n (map node_type cs) = Child then c
      else InternalNode n (map (put Child c) cs))"

section \<open>A recursively implemented scan for inheritance trees\<close>

text \<open>
  \<^verbatim>\<open>inher_tree_scan_recur< Func, Parent, Bases, Params... >(tag, p, ps...)\<close>. The functor's
  \<^verbatim>\<open>apply<Parent, Child>(p, ps...)\<close> receives references; \<open>'s\<close> is the state it can reach
  through them (the parent object, the referents of the runtime parameters, the output
  stream), returned updated. \<open>None\<close> is an instantiation the compiler rejects. The tag is
  \<^verbatim>\<open>mpl::empty\<close> of the remaining stack; a \<^verbatim>\<open>false\<close> tag on an empty stack would dereference
  the end of the vector.
\<close>

fun inher_tree_scan_recur ::
  "('t ntype \<Rightarrow> 't ntype \<Rightarrow> 's \<Rightarrow> 's option) \<Rightarrow> 't ntype \<Rightarrow> bool \<Rightarrow> 't ntype list \<Rightarrow> 's \<Rightarrow> 's option"
where
  "inher_tree_scan_recur func Parent True Bases s = Some s"
| "inher_tree_scan_recur func Parent False [] s = None"
| "inher_tree_scan_recur func Parent False (current_base # remaining_bases) s =
     (case func Parent current_base s of
        None \<Rightarrow> None
      | Some s' \<Rightarrow>
          (let is_empty = (remaining_bases = [])
           in inher_tree_scan_recur func Parent is_empty remaining_bases s'))"

text \<open>
  \<^verbatim>\<open>inher_tree_scan< Func >(p, ps...)\<close>: the stack is \<^verbatim>\<open>Parent::base_type\<close>, which only an
  internal node type declares.
\<close>

fun inher_tree_scan ::
  "('t ntype \<Rightarrow> 't ntype \<Rightarrow> 's \<Rightarrow> 's option) \<Rightarrow> 't ntype \<Rightarrow> 's \<Rightarrow> 's option"
where
  "inher_tree_scan func (InternalT n cs) s =
     (let is_empty = (base_type (InternalT n cs) = [])
      in inher_tree_scan_recur func (InternalT n cs) is_empty (base_type (InternalT n cs)) s)"
| "inher_tree_scan func (LeafT n t) s = None"

lemma tsize_member: "c \<in> set cs \<Longrightarrow> tsize c < tsize (InternalT n cs)"
  by (induction cs) auto

lemma inher_tree_scan_recur_cong [fundef_cong]:
  assumes "P = P'" "e = e'" "Bs = Bs'" "s = s'"
    and "\<And>C st. C \<in> set Bs' \<Longrightarrow> F P' C st = G P' C st"
  shows "inher_tree_scan_recur F P e Bs s = inher_tree_scan_recur G P' e' Bs' s'"
  using assms(5) unfolding assms(1-4)
proof (induction Bs' arbitrary: e' s')
  case Nil
  then show ?case by (cases e') simp_all
next
  case (Cons C Bs')
  then show ?case by (cases e') (simp_all split: option.splits)
qed

lemma inher_tree_scan_cong [fundef_cong]:
  assumes "P = P'" "s = s'"
    and "\<And>C st. C \<in> set (base_type P') \<Longrightarrow> F P' C st = G P' C st"
  shows "inher_tree_scan F P s = inher_tree_scan G P' s'"
  using assms(3) unfolding assms(1,2)
  by (cases P') (simp_all cong: inher_tree_scan_recur_cong)

section \<open>Generic functor templates\<close>

text \<open>
  Every functor reaches the child through \<open>get\<close> and runs one member function of the child
  on it. The member function is the functor's first argument here, since it is the node's
  own, defined below: \<^verbatim>\<open>get<Child>(a).rand_gen(g)\<close>, \<^verbatim>\<open>get<Child>(a).print(prefix)\<close> and
  \<^verbatim>\<open>get<Child>(a) += get<Child>(b)\<close>.
\<close>

text \<open>\<^verbatim>\<open>rand_gen_f<Generator>::apply<Parent, Child>(Parent& a, Generator& g)\<close>\<close>

definition rand_gen_f_apply ::
  "(('t, 'v) node \<Rightarrow> 'g \<Rightarrow> (('t, 'v) node \<times> 'g) option) \<Rightarrow>
   't ntype \<Rightarrow> 't ntype \<Rightarrow> ('t, 'v) node \<times> 'g \<Rightarrow> (('t, 'v) node \<times> 'g) option"
where
  "rand_gen_f_apply child_rand_gen Parent Child s =
     (case s of (a, g) \<Rightarrow>
        (case get Child a of
           None \<Rightarrow> None
         | Some c \<Rightarrow>
             (case child_rand_gen c g of
                None \<Rightarrow> None
              | Some (c', g') \<Rightarrow> Some (put Child c' a, g'))))"

text \<open>
  \<^verbatim>\<open>print_f::apply<Parent, Child>(Parent& a, std::string prefix)\<close>: the prefix is copied
  into the call; the state is the parent, the caller's prefix and the bytes written to
  \<^verbatim>\<open>std::cout\<close> so far.
\<close>

definition print_f_apply ::
  "(('t, 'v) node \<Rightarrow> string \<Rightarrow> string \<Rightarrow> (('t, 'v) node \<times> string) option) \<Rightarrow>
   't ntype \<Rightarrow> 't ntype \<Rightarrow> ('t, 'v) node \<times> string \<times> string \<Rightarrow>
   (('t, 'v) node \<times> string \<times> string) option"
where
  "print_f_apply child_print Parent Child s =
     (case s of (a, prefix, cout) \<Rightarrow>
        (case get Child a of
           None \<Rightarrow> None
         | Some c \<Rightarrow>
             (case child_print c prefix cout of
                None \<Rightarrow> None
              | Some (c', cout') \<Rightarrow> Some (put Child c' a, prefix, cout'))))"

text \<open>
  \<^verbatim>\<open>print_f::apply\<close> takes the prefix by value. When the scan is called with an rvalue
  string, \<^verbatim>\<open>Params\<close> is \<^verbatim>\<open>std::string\<close>, \<^verbatim>\<open>std::forward<Params>(ps)\<close> is an rvalue in lines
  94, 102 and 119, and the parameter \<^verbatim>\<open>prefix\<close> of \<^verbatim>\<open>apply\<close> is move-constructed from \<open>ps\<close>:
  the call has the value of \<open>ps\<close> and leaves \<open>ps\<close> in the moved-from state, \<open>moved_from\<close>
  (the empty string in the common implementations of the library), for the calls that
  follow. The parameter object \<open>ps\<close> is part of the state for that reason.
\<close>

definition print_f_apply_rvalue ::
  "string \<Rightarrow> (('t, 'v) node \<Rightarrow> string \<Rightarrow> string \<Rightarrow> (('t, 'v) node \<times> string) option) \<Rightarrow>
   't ntype \<Rightarrow> 't ntype \<Rightarrow> ('t, 'v) node \<times> string \<times> string \<Rightarrow>
   (('t, 'v) node \<times> string \<times> string) option"
where
  "print_f_apply_rvalue moved_from child_print Parent Child s =
     (case s of (a, ps, cout) \<Rightarrow>
        (let prefix = ps;
             ps = moved_from
         in (case get Child a of
               None \<Rightarrow> None
             | Some c \<Rightarrow>
                 (case child_print c prefix cout of
                    None \<Rightarrow> None
                  | Some (c', cout') \<Rightarrow> Some (put Child c' a, ps, cout')))))"

text \<open>
  \<^verbatim>\<open>add_eq::apply<Parent, Child>(Parent& a, Parent& b)\<close>: both parameters are references to
  \<^verbatim>\<open>Parent\<close>, so the second argument is converted to \<^verbatim>\<open>Parent\<close> as well. \<open>add_eq_apply\<close> is
  the call on two different objects, each with a state of its own; the call on one object
  under both references is \<open>add_eq_apply_self\<close> below.
\<close>

definition add_eq_apply ::
  "(('t, 'v) node \<Rightarrow> ('t, 'v) node \<Rightarrow> (('t, 'v) node \<times> ('t, 'v) node) option) \<Rightarrow>
   't ntype \<Rightarrow> 't ntype \<Rightarrow> ('t, 'v) node \<times> ('t, 'v) node \<Rightarrow>
   (('t, 'v) node \<times> ('t, 'v) node) option"
where
  "add_eq_apply child_plus_eq Parent Child s =
     (case s of (a, rhs) \<Rightarrow>
        (case get Parent rhs of
           None \<Rightarrow> None
         | Some b \<Rightarrow>
             (case get Child a of
                None \<Rightarrow> None
              | Some ca \<Rightarrow>
                  (case get Child b of
                     None \<Rightarrow> None
                   | Some cb \<Rightarrow>
                       (case child_plus_eq ca cb of
                          None \<Rightarrow> None
                        | Some (ca', cb') \<Rightarrow>
                            Some (put Child ca' a, put Parent (put Child cb' b) rhs))))))"

text \<open>
  The same \<^verbatim>\<open>apply\<close> when \<open>a\<close> and \<open>b\<close> refer to one object, as in \<^verbatim>\<open>x += x\<close>:
  \<^verbatim>\<open>get<Child>(a)\<close> and \<^verbatim>\<open>get<Child>(b)\<close> are then one subobject \<open>c\<close>, and the call is
  \<^verbatim>\<open>c += c\<close>. There is one object in the state, and what is written through the left
  reference is read through the right one.
\<close>

definition add_eq_apply_self ::
  "(('t, 'v) node \<Rightarrow> ('t, 'v) node option) \<Rightarrow>
   't ntype \<Rightarrow> 't ntype \<Rightarrow> ('t, 'v) node \<Rightarrow> ('t, 'v) node option"
where
  "add_eq_apply_self child_plus_eq_self Parent Child a =
     (case get Child a of
        None \<Rightarrow> None
      | Some c \<Rightarrow>
          (case child_plus_eq_self c of
             None \<Rightarrow> None
           | Some c' \<Rightarrow> Some (put Child c' a)))"

lemma get_type: "get Child p = Some c \<Longrightarrow> node_type c = Child"
proof -
  assume g: "get Child p = Some c"
  show ?thesis
  proof (cases "node_type p = Child")
    case True
    with g show ?thesis by (simp add: get_def)
  next
    case False
    with g have "filter (\<lambda>b. node_type b = Child) (bases p) = [c]"
      by (simp add: get_def split: list.splits)
    then have "c \<in> set (filter (\<lambda>b. node_type b = Child) (bases p))" by simp
    then show ?thesis by simp
  qed
qed

lemma rand_gen_f_apply_cong [fundef_cong]:
  assumes "P = P'" "C = C'" "s = s'"
    and "\<And>c g. get C' (fst s') = Some c \<Longrightarrow> f c g = f' c g"
  shows "rand_gen_f_apply f P C s = rand_gen_f_apply f' P' C' s'"
  using assms(4) unfolding assms(1-3) rand_gen_f_apply_def
  by (cases s') (simp split: option.splits)

lemma print_f_apply_cong [fundef_cong]:
  assumes "P = P'" "C = C'" "s = s'"
    and "\<And>c x y. get C' (fst s') = Some c \<Longrightarrow> f c x y = f' c x y"
  shows "print_f_apply f P C s = print_f_apply f' P' C' s'"
  using assms(4) unfolding assms(1-3) print_f_apply_def
  by (cases s') (simp split: option.splits)

lemma add_eq_apply_cong [fundef_cong]:
  assumes "P = P'" "C = C'" "s = s'"
    and "\<And>c d. get C' (fst s') = Some c \<Longrightarrow> f c d = f' c d"
  shows "add_eq_apply f P C s = add_eq_apply f' P' C' s'"
  using assms(4) unfolding assms(1-3) add_eq_apply_def
  by (cases s') (simp split: option.splits)

lemma add_eq_apply_self_cong [fundef_cong]:
  assumes "P = P'" "C = C'" "a = a'"
    and "\<And>c. get C' a' = Some c \<Longrightarrow> f c = f' c"
  shows "add_eq_apply_self f P C a = add_eq_apply_self f' P' C' a'"
  using assms(4) unfolding assms(1-3) add_eq_apply_self_def
  by (simp split: option.splits)

section \<open>The node templates\<close>

subsection \<open>rand_gen\<close>

text \<open>
  \<^verbatim>\<open>LeafNode::rand_gen\<close>: \<^verbatim>\<open>std::normal_distribution<> dist {100, 50}; val = static_cast<T>(dist(gen));\<close>
  The distribution and the cast belong to the language and its library; they are
  parameters: \<open>normal_distribution m sd g\<close> is the sample \<^verbatim>\<open>dist(gen)\<close> draws and the
  generator after the draw, \<open>static_cast t x\<close> is the conversion of the sample to \<open>t\<close>.
  \<^verbatim>\<open>InternalNode::rand_gen\<close>: \<^verbatim>\<open>inher_tree_scan< rand_gen_f<Generator> >(*this, g)\<close>.
\<close>

function rand_gen ::
  "(int \<Rightarrow> int \<Rightarrow> 'g \<Rightarrow> 'd \<times> 'g) \<Rightarrow> ('t \<Rightarrow> 'd \<Rightarrow> 'v) \<Rightarrow>
   ('t, 'v) node \<Rightarrow> 'g \<Rightarrow> (('t, 'v) node \<times> 'g) option"
where
  "rand_gen normal_distribution static_cast (LeafNode n t v) gen =
     (let dist = normal_distribution 100 50;
          (x, gen') = dist gen
      in Some (LeafNode n t (static_cast t x), gen'))"
| "rand_gen normal_distribution static_cast (InternalNode n cs) g =
     inher_tree_scan (rand_gen_f_apply (rand_gen normal_distribution static_cast))
       (node_type (InternalNode n cs)) (InternalNode n cs, g)"
  by pat_completeness auto
termination
proof (relation "measure (\<lambda>(nd, sc, p, g). tsize (node_type p))", goal_cases)
  case 1
  show ?case by simp
next
  case (2 nd sc n cs g C st c g')
  then show ?case
    by (auto dest!: get_type simp del: tsize.simps intro: tsize_member)
qed

subsection \<open>print\<close>

text \<open>\<^verbatim>\<open>std::endl\<close> writes a newline (and flushes, which no later read observes).\<close>

definition endl :: string where
  "endl = [CHR 0x0A]"

text \<open>
  \<^verbatim>\<open>LeafNode::print\<close>: \<^verbatim>\<open>if (prefix != "") prefix += " ";\<close> and then
  \<^verbatim>\<open>std::cout << prefix << mpl::c_str<name>::value << " == " << val << std::endl;\<close>
  \<^verbatim>\<open>InternalNode::print\<close>: the same guard, \<^verbatim>\<open>prefix += mpl::c_str<name>::value;\<close> and
  \<^verbatim>\<open>inher_tree_scan< print_f >(*this, prefix)\<close>. The text \<^verbatim>\<open>operator<<\<close> writes for a value of
  scalar type \<open>t\<close> is the parameter \<open>format t\<close>. Neither function is \<^verbatim>\<open>const\<close>: the object
  is returned with the output.
\<close>

function print ::
  "('t \<Rightarrow> 'v \<Rightarrow> string) \<Rightarrow> ('t, 'v) node \<Rightarrow> string \<Rightarrow> string \<Rightarrow> (('t, 'v) node \<times> string) option"
where
  "print format (LeafNode n t v) prefix cout =
     (let prefix = (if prefix \<noteq> [] then prefix @ '' '' else prefix)
      in Some (LeafNode n t v, cout @ prefix @ n @ '' == '' @ format t v @ endl))"
| "print format (InternalNode n cs) prefix cout =
     (let prefix = (if prefix \<noteq> [] then prefix @ '' '' else prefix);
          prefix = prefix @ n
      in (case inher_tree_scan (print_f_apply (print format))
                 (node_type (InternalNode n cs)) (InternalNode n cs, prefix, cout) of
            None \<Rightarrow> None
          | Some (this, prefix', cout') \<Rightarrow> Some (this, cout')))"
  by pat_completeness auto
termination
proof (relation "measure (\<lambda>(f, p, x, y). tsize (node_type p))", goal_cases)
  case 1
  show ?case by simp
next
  case (2 f n cs prefix cout x xa C st c x' y')
  then show ?case
    by (auto dest!: get_type simp del: tsize.simps intro: tsize_member)
qed

subsection \<open>operator+=\<close>

text \<open>
  \<^verbatim>\<open>template <typename RhsName> InternalNode& operator+=( InternalNode<RhsName, ChildNodes...>& rhs)\<close>:
  the parameter binds to an argument whose class is an internal node with the same
  \<^verbatim>\<open>ChildNodes...\<close> under any name, or else to the one base-class subobject of the argument
  that is; with none or several the deduction fails.
\<close>

fun matches_rhs :: "'t ntype list \<Rightarrow> ('t, 'v) node \<Rightarrow> bool" where
  "matches_rhs ChildNodes (InternalNode RhsName cs) = (map node_type cs = ChildNodes)"
| "matches_rhs ChildNodes (LeafNode n t v) = False"

definition bind_rhs :: "'t ntype list \<Rightarrow> ('t, 'v) node \<Rightarrow> ('t, 'v) node option" where
  "bind_rhs ChildNodes arg =
     (if matches_rhs ChildNodes arg then Some arg
      else (case filter (matches_rhs ChildNodes) (bases arg) of
              [rhs] \<Rightarrow> Some rhs
            | _ \<Rightarrow> None))"

text \<open>
  \<^verbatim>\<open>LeafNode& operator+=(LeafNode& rhs) { this->val += rhs.val; return *this; }\<close> and
  \<^verbatim>\<open>InternalNode::operator+=\<close>: \<^verbatim>\<open>inher_tree_scan< add_eq >(*this, rhs); return *this;\<close>
  The addition of scalar type \<open>t\<close> is the parameter \<open>plus_assign t\<close>. The right operand is
  a reference to a non-const object: it is returned beside the left operand.
  \<open>operator_plus_eq\<close> is the call on two different objects; the call whose right operand is
  the left object itself, \<^verbatim>\<open>x += x\<close>, is \<open>operator_plus_eq_self\<close> below.
\<close>

function operator_plus_eq ::
  "('t \<Rightarrow> 'v \<Rightarrow> 'v \<Rightarrow> 'v) \<Rightarrow> ('t, 'v) node \<Rightarrow> ('t, 'v) node \<Rightarrow>
   (('t, 'v) node \<times> ('t, 'v) node) option"
where
  "operator_plus_eq plus_assign (LeafNode n t v) arg =
     (case get (LeafT n t) arg of
        None \<Rightarrow> None
      | Some rhs \<Rightarrow>
          (case rhs of
             LeafNode rn rt rv \<Rightarrow>
               Some (LeafNode n t (plus_assign t v rv), put (LeafT n t) rhs arg)
           | InternalNode rn rcs \<Rightarrow> None))"
| "operator_plus_eq plus_assign (InternalNode n cs) arg =
     (case bind_rhs (map node_type cs) arg of
        None \<Rightarrow> None
      | Some rhs \<Rightarrow>
          (case inher_tree_scan (add_eq_apply (operator_plus_eq plus_assign))
                  (node_type (InternalNode n cs)) (InternalNode n cs, rhs) of
             None \<Rightarrow> None
           | Some (this, rhs') \<Rightarrow> Some (this, put (node_type rhs) rhs' arg)))"
  by pat_completeness auto
termination
proof (relation "measure (\<lambda>(f, p, q). tsize (node_type p))", goal_cases)
  case 1
  show ?case by simp
next
  case (2 f n cs arg rhs C st c d)
  then show ?case
    by (auto dest!: get_type simp del: tsize.simps intro: tsize_member)
qed

text \<open>
  \<^verbatim>\<open>x += x\<close>: \<^verbatim>\<open>rhs\<close> is \<^verbatim>\<open>*this\<close>, so \<^verbatim>\<open>RhsName\<close> is \<^verbatim>\<open>Name\<close> and the parameter binds to the
  object itself. A leaf runs \<^verbatim>\<open>this->val += rhs.val\<close> with \<^verbatim>\<open>rhs.val\<close> the same scalar; an
  internal node scans its children with itself as both arguments. The object returned is
  the left and the right operand at once.
\<close>

function operator_plus_eq_self ::
  "('t \<Rightarrow> 'v \<Rightarrow> 'v \<Rightarrow> 'v) \<Rightarrow> ('t, 'v) node \<Rightarrow> ('t, 'v) node option"
where
  "operator_plus_eq_self plus_assign (LeafNode n t v) = Some (LeafNode n t (plus_assign t v v))"
| "operator_plus_eq_self plus_assign (InternalNode n cs) =
     inher_tree_scan (add_eq_apply_self (operator_plus_eq_self plus_assign))
       (node_type (InternalNode n cs)) (InternalNode n cs)"
  by pat_completeness auto
termination
proof (relation "measure (\<lambda>(f, p). tsize (node_type p))", goal_cases)
  case 1
  show ?case by simp
next
  case (2 f n cs C st c)
  then show ?case
    by (auto dest!: get_type simp del: tsize.simps intro: tsize_member)
qed

subsection \<open>Construction\<close>

text \<open>
  \<^verbatim>\<open>LeafNode() : val() {}\<close> value-initialises the scalar, and an internal node has the
  implicit default constructor, which constructs every base. \<open>zero_of t\<close> is the value a
  value-initialised scalar of type \<open>t\<close> holds, the zero of \<open>t\<close>.
\<close>

fun construct :: "('t \<Rightarrow> 'v) \<Rightarrow> 't ntype \<Rightarrow> ('t, 'v) node" where
  "construct zero_of (LeafT n t) = LeafNode n t (zero_of t)"
| "construct zero_of (InternalT n cs) = InternalNode n (map (construct zero_of) cs)"

section \<open>The tree of main and concrete parameters\<close>

text \<open>
  The tree of \<^verbatim>\<open>main\<close>: \<^verbatim>\<open>using Bar = InternalNode< mpl::string<'o','n','e'>, ... >\<close>, over the
  scalar types \<^verbatim>\<open>int\<close>, \<^verbatim>\<open>float\<close>, \<^verbatim>\<open>double\<close> and \<^verbatim>\<open>long\<close>.
\<close>

datatype ctype = CInt | CFloat | CDouble | CLong

definition Bar :: "ctype ntype" where
  "Bar = InternalT ''one''
     [LeafT ''A'' CInt,
      LeafT ''B'' CFloat,
      InternalT ''two''
        [LeafT ''D'' CDouble,
         InternalT ''three'' [LeafT ''E'' CLong]],
      LeafT ''F'' CDouble,
      LeafT ''G'' CInt]"

text \<open>
  Two objects of type \<^verbatim>\<open>Bar\<close>, named after \<^verbatim>\<open>Bar foo, bar;\<close> of \<^verbatim>\<open>main\<close>, with fixed values in
  the place of the random ones (\<open>bar.A = 2\<close> and \<open>foo.A = 3\<close>), for concrete runs.
\<close>

definition foo :: "(ctype, int) node" where
  "foo = InternalNode ''one''
     [LeafNode ''A'' CInt 3,
      LeafNode ''B'' CFloat 10,
      InternalNode ''two''
        [LeafNode ''D'' CDouble 20,
         InternalNode ''three'' [LeafNode ''E'' CLong 30]],
      LeafNode ''F'' CDouble 40,
      LeafNode ''G'' CInt 50]"

definition bar :: "(ctype, int) node" where
  "bar = InternalNode ''one''
     [LeafNode ''A'' CInt 2,
      LeafNode ''B'' CFloat 1,
      InternalNode ''two''
        [LeafNode ''D'' CDouble 2,
         InternalNode ''three'' [LeafNode ''E'' CLong 3]],
      LeafNode ''F'' CDouble 4,
      LeafNode ''G'' CInt 5]"

text \<open>
  Concrete stand-ins for the parameters, for concrete runs: a generator that counts its
  draws and a distribution whose \<open>k\<close>-th sample is \<open>mean + stddev * k\<close>, a cast that
  keeps the number, and decimal output of a natural number.
\<close>

definition toy_normal_distribution :: "int \<Rightarrow> int \<Rightarrow> int \<Rightarrow> int \<times> int" where
  "toy_normal_distribution mean stddev g = (mean + stddev * g, g + 1)"

definition toy_static_cast :: "ctype \<Rightarrow> int \<Rightarrow> int" where
  "toy_static_cast t x = x"

fun decimal :: "nat \<Rightarrow> string" where
  "decimal n =
     (if n < 10 then [''0123456789'' ! n]
      else decimal (n div 10) @ [''0123456789'' ! (n mod 10)])"

declare decimal.simps [simp del]

definition toy_format :: "ctype \<Rightarrow> int \<Rightarrow> string" where
  "toy_format t v = decimal (nat v)"

section \<open>Notions the properties are stated with\<close>

text \<open>
  The scans compile for a tree type when \<^verbatim>\<open>get<Child>\<close> is a valid conversion at every
  internal node: each direct base is a base-class subobject type of the node exactly once
  (a base listed twice makes the class ill-formed; a direct base that is also an indirect
  base is ambiguous). Such a type is called well formed.
\<close>

fun well_formed :: "'t ntype \<Rightarrow> bool" where
  "well_formed (LeafT n t) = True"
| "well_formed (InternalT n cs) =
     (\<forall>c\<in>set cs. well_formed c \<and> count_list (type_bases (InternalT n cs)) c = 1)"

text \<open>
  The leaves of an object in declaration order (depth first, left to right), each with
  its name, scalar type and value, and the leaves a tree type declares.
\<close>

fun leaves :: "('t, 'v) node \<Rightarrow> (name \<times> 't \<times> 'v) list" where
  "leaves (LeafNode n t v) = [(n, t, v)]"
| "leaves (InternalNode n cs) = concat (map leaves cs)"

fun declared_leaves :: "'t ntype \<Rightarrow> (name \<times> 't) list" where
  "declared_leaves (LeafT n t) = [(n, t)]"
| "declared_leaves (InternalT n cs) = concat (map declared_leaves cs)"

text \<open>
  Joining with a space: the accumulated prefix extended by a name, with no space in
  front of the name when there is no prefix yet. \<open>leaf_paths\<close> lists the leaves in declaration
  order, each with the names of the internal nodes from the root down to it.
\<close>

definition space_join :: "string \<Rightarrow> string \<Rightarrow> string" where
  "space_join acc n = (if acc = [] then n else acc @ '' '' @ n)"

fun leaf_paths :: "('t, 'v) node \<Rightarrow> (name list \<times> name \<times> 't \<times> 'v) list" where
  "leaf_paths (LeafNode n t v) = [([], n, t, v)]"
| "leaf_paths (InternalNode n cs) = map (\<lambda>(path, l). (n # path, l)) (concat (map leaf_paths cs))"

text \<open>
  The line \<^verbatim>\<open><accumulated-prefix> <name> == <value>\<close> as the specification writes it, and
  the line a leaf writes below the internal nodes of \<open>path\<close> when the caller's prefix is
  \<open>prefix\<close>; \<open>separator\<close> is what stands in front of the leaf's name in that line.
\<close>

definition prefixed_line :: "string \<Rightarrow> name \<Rightarrow> string \<Rightarrow> string" where
  "prefixed_line acc n v = acc @ '' '' @ n @ '' == '' @ v @ endl"

definition leaf_line ::
  "('t \<Rightarrow> 'v \<Rightarrow> string) \<Rightarrow> string \<Rightarrow> name list \<times> name \<times> 't \<times> 'v \<Rightarrow> string" where
  "leaf_line format prefix l =
     (case l of (path, n, t, v) \<Rightarrow>
        space_join (foldl space_join prefix path) n @ '' == '' @ format t v @ endl)"

definition separator :: "string \<Rightarrow> string" where
  "separator acc = (if acc = [] then [] else acc @ '' '')"

text \<open>
  \<open>samples dist cast ls g\<close> gives every leaf of the list \<open>ls\<close>, in order, the next sample
  of \<open>dist\<close> converted to the leaf's type, each draw starting from the generator the
  previous draw left, and returns the generator after the last draw.
\<close>

fun samples ::
  "('g \<Rightarrow> 'd \<times> 'g) \<Rightarrow> ('t \<Rightarrow> 'd \<Rightarrow> 'v) \<Rightarrow> (name \<times> 't \<times> 'v) list \<Rightarrow> 'g \<Rightarrow>
   (name \<times> 't \<times> 'v) list \<times> 'g"
where
  "samples dist cast [] g = ([], g)"
| "samples dist cast ((n, t, v) # ls) g =
     (let (x, g') = dist g;
          (ls', g'') = samples dist cast ls g'
      in ((n, t, cast t x) # ls', g''))"

text \<open>
  Shape compatibility in the specification's words: two composites whose child-type
  sequences are identical in order and type, whatever their own names (and two leaves of
  the same type). \<open>add_leaf\<close> is the leaf \<open>L\<close> of the left tree after the addition of the
  leaf of the right tree.
\<close>

fun shape_compatible :: "'t ntype \<Rightarrow> 't ntype \<Rightarrow> bool" where
  "shape_compatible (InternalT n cs) (InternalT m ds) = (cs = ds)"
| "shape_compatible (LeafT n t) (LeafT m u) = (n = m \<and> t = u)"
| "shape_compatible (InternalT n cs) (LeafT m u) = False"
| "shape_compatible (LeafT n t) (InternalT m ds) = False"

definition add_leaf :: "('t \<Rightarrow> 'v \<Rightarrow> 'v \<Rightarrow> 'v) \<Rightarrow> name \<times> 't \<times> 'v \<Rightarrow> name \<times> 't \<times> 'v \<Rightarrow> name \<times> 't \<times> 'v" where
  "add_leaf plus_assign l r = (case l of (n, t, v) \<Rightarrow> (case r of (m, u, w) \<Rightarrow> (n, t, plus_assign t v w)))"

text \<open>
  \<open>thread h cs x\<close> runs \<open>h\<close> on every element of \<open>cs\<close> from left to right, handing
  the state \<open>x\<close> from one call to the next; it is the reference the scans are compared with.
\<close>

fun thread :: "('a \<Rightarrow> 'x \<Rightarrow> ('a \<times> 'x) option) \<Rightarrow> 'a list \<Rightarrow> 'x \<Rightarrow> ('a list \<times> 'x) option" where
  "thread h [] x = Some ([], x)"
| "thread h (c # cs) x =
     (case h c x of
        None \<Rightarrow> None
      | Some (c', x') \<Rightarrow>
          (case thread h cs x' of
             None \<Rightarrow> None
           | Some (cs', x'') \<Rightarrow> Some (c' # cs', x'')))"

text \<open>
  What the functors do with the child they reached: the child's own \<open>print\<close> on the
  caller's prefix and the output so far, and the child's own \<open>+=\<close> with the same base of
  the right operand.
\<close>

definition print_child ::
  "(('t, 'v) node \<Rightarrow> string \<Rightarrow> string \<Rightarrow> (('t, 'v) node \<times> string) option) \<Rightarrow>
   ('t, 'v) node \<Rightarrow> string \<times> string \<Rightarrow> (('t, 'v) node \<times> string \<times> string) option" where
  "print_child pr c x =
     (case x of (p, co) \<Rightarrow>
        (case pr c p co of None \<Rightarrow> None | Some (c', co') \<Rightarrow> Some (c', p, co')))"

definition add_child ::
  "(('t, 'v) node \<Rightarrow> ('t, 'v) node \<Rightarrow> (('t, 'v) node \<times> ('t, 'v) node) option) \<Rightarrow>
   't ntype \<Rightarrow> ('t, 'v) node \<Rightarrow> ('t, 'v) node \<Rightarrow> (('t, 'v) node \<times> ('t, 'v) node) option" where
  "add_child f P d rhs =
     (case get P rhs of
        None \<Rightarrow> None
      | Some b \<Rightarrow>
          (case get (node_type d) b of
             None \<Rightarrow> None
           | Some cb \<Rightarrow>
               (case f d cb of
                  None \<Rightarrow> None
                | Some (ca', cb') \<Rightarrow> Some (ca', put P (put (node_type d) cb' b) rhs))))"

section \<open>Bases, get and put\<close>

lemma bases_types: "map node_type (bases p) = type_bases (node_type p)"
proof (induction p)
  case (LeafNode n t v)
  show ?case by simp
next
  case (InternalNode n cs)
  then show ?case by (induction cs) (simp_all add: map_concat)
qed

lemma tsize_type_bases: "b \<in> set (type_bases T) \<Longrightarrow> tsize b < tsize T"
proof (induction T arbitrary: b)
  case (LeafT n t)
  then show ?case by simp
next
  case (InternalT n cs)
  from InternalT.prems obtain c where c: "c \<in> set cs" and b: "b = c \<or> b \<in> set (type_bases c)"
    by auto
  from b InternalT.IH [OF c] have "tsize b \<le> tsize c" by (auto intro: less_imp_le)
  with tsize_member [OF c, of n] show ?case by simp
qed

lemma tsize_neq: "c \<in> set cs \<Longrightarrow> InternalT n cs \<noteq> c"
  using tsize_member [of c cs n] by auto

lemma not_own_base: "T \<notin> set (type_bases T)"
  using tsize_type_bases [of T T] by auto

lemma count_filter: "count_list (map f xs) y = length (filter (\<lambda>x. f x = y) xs)"
  by (induction xs) auto

lemma filter_bases_absent:
  assumes "C \<notin> set (type_bases (node_type x))"
  shows "filter (\<lambda>b. node_type b = C) (bases x) = []"
proof -
  from assms have "C \<notin> node_type ` set (bases x)" by (simp add: bases_types [symmetric])
  then show ?thesis unfolding filter_empty_conv by blast
qed

lemma put_absent:
  "node_type x \<noteq> C \<Longrightarrow> C \<notin> set (type_bases (node_type x)) \<Longrightarrow> put C c' x = x"
proof (induction x)
  case (LeafNode n t v)
  then show ?case by simp
next
  case (InternalNode n cs)
  have "map (put C c') cs = cs"
  proof (rule map_idI)
    fix x assume x: "x \<in> set cs"
    with InternalNode.prems(2) have "node_type x \<noteq> C" "C \<notin> set (type_bases (node_type x))"
      by auto
    with InternalNode.IH [OF x] show "put C c' x = x" by simp
  qed
  with InternalNode.prems(1) show ?case by simp
qed

lemma count_one_split:
  assumes "count_list (type_bases (InternalT n (map node_type (pre @ c # post)))) (node_type c) = 1"
  shows "\<forall>x\<in>set (pre @ post). node_type x \<noteq> node_type c \<and> node_type c \<notin> set (type_bases (node_type x))"
    and "node_type c \<notin> set (type_bases (node_type c))"
proof -
  show "node_type c \<notin> set (type_bases (node_type c))" by (rule not_own_base)
  let ?C = "node_type c"
  let ?f = "\<lambda>xs. concat (map (\<lambda>c. c # type_bases c) (map node_type xs))"
  have "count_list (?f pre) ?C + (1 + count_list (type_bases ?C) ?C) + count_list (?f post) ?C = 1"
    using assms by simp
  then have z: "count_list (?f pre) ?C = 0" "count_list (?f post) ?C = 0" by simp_all
  then have "?C \<notin> set (?f pre)" "?C \<notin> set (?f post)"
    by (metis count_list_0_iff)+
  then show "\<forall>x\<in>set (pre @ post). node_type x \<noteq> ?C \<and> ?C \<notin> set (type_bases (node_type x))"
    by auto
qed

lemma filter_subtree_absent:
  assumes "node_type x \<noteq> C" "C \<notin> set (type_bases (node_type x))"
  shows "filter (\<lambda>b. node_type b = C) (x # bases x) = []"
  using assms filter_bases_absent [of C x] by simp

lemma filter_forest_absent:
  "\<forall>x\<in>set xs. node_type x \<noteq> C \<and> C \<notin> set (type_bases (node_type x)) \<Longrightarrow>
   filter (\<lambda>b. node_type b = C) (concat (map (\<lambda>c. c # bases c) xs)) = []"
  by (induction xs) (simp_all add: filter_bases_absent)

lemma get_direct:
  assumes "count_list (type_bases (InternalT n (map node_type (pre @ c # post)))) (node_type c) = 1"
  shows "get (node_type c) (InternalNode n (pre @ c # post)) = Some c"
proof -
  let ?C = "node_type c"
  note s = count_one_split [OF assms]
  have ne: "node_type (InternalNode n (pre @ c # post)) \<noteq> ?C"
    using tsize_neq [of ?C "map node_type (pre @ c # post)" n] by simp
  have fc: "filter (\<lambda>b. node_type b = ?C) (bases c) = []"
    using s(2) by (rule filter_bases_absent)
  have "filter (\<lambda>b. node_type b = ?C) (bases (InternalNode n (pre @ c # post))) = [c]"
    using filter_forest_absent [of pre ?C] filter_forest_absent [of post ?C] s(1) fc by simp
  with ne show ?thesis by (simp add: get_def)
qed

lemma put_direct:
  assumes "count_list (type_bases (InternalT n (map node_type (pre @ c # post)))) (node_type c) = 1"
  shows "put (node_type c) c' (InternalNode n (pre @ c # post)) = InternalNode n (pre @ c' # post)"
proof -
  let ?C = "node_type c"
  note s = count_one_split [OF assms]
  have ne: "InternalT n (map node_type (pre @ c # post)) \<noteq> ?C"
    using tsize_neq [of ?C "map node_type (pre @ c # post)" n] by simp
  have "\<And>xs. \<forall>x\<in>set xs. node_type x \<noteq> ?C \<and> ?C \<notin> set (type_bases (node_type x)) \<Longrightarrow>
      map (put ?C c') xs = xs"
    by (rule map_idI) (simp add: put_absent)
  then have "map (put ?C c') pre = pre" "map (put ?C c') post = post"
    using s(1) by simp_all
  moreover have "put ?C c' c = c'" by (cases c) simp_all
  ultimately show ?thesis using ne by simp
qed

lemma not_single:
  "length xs \<noteq> 1 \<Longrightarrow> (case xs of [] \<Rightarrow> None | [c] \<Rightarrow> Some c | c # d # ys \<Rightarrow> None) = None"
  by (cases xs) (simp_all split: list.splits)

lemma get_ambiguous:
  assumes "count_list (type_bases (InternalT n (map node_type (pre @ c # post)))) (node_type c) \<noteq> 1"
  shows "get (node_type c) (InternalNode n (pre @ c # post)) = None"
proof -
  let ?C = "node_type c" and ?p = "InternalNode n (pre @ c # post)"
  have ne: "node_type ?p \<noteq> ?C"
    using tsize_neq [of ?C "map node_type (pre @ c # post)" n] by simp
  have "length (filter (\<lambda>b. node_type b = ?C) (bases ?p)) =
      count_list (map node_type (bases ?p)) ?C"
    by (rule count_filter [symmetric])
  also have "\<dots> = count_list (type_bases (node_type ?p)) ?C"
    by (simp only: bases_types)
  finally have "length (filter (\<lambda>b. node_type b = ?C) (bases ?p)) \<noteq> 1"
    using assms by simp
  then have "(case filter (\<lambda>b. node_type b = ?C) (bases ?p) of [c] \<Rightarrow> Some c | _ \<Rightarrow> None) = None"
    by (rule not_single)
  with ne show ?thesis by (simp only: get_def if_False)
qed

lemma get_self: "node_type p = T \<Longrightarrow> get T p = Some p"
  by (simp add: get_def)

lemma put_self: "node_type p = T \<Longrightarrow> put T c p = c"
  by (cases p) auto

lemma get_other_name:
  assumes "m \<noteq> n" "map node_type ds = map node_type cs"
  shows "get (InternalT n (map node_type cs)) (InternalNode m ds) = None"
proof -
  let ?P = "InternalT n (map node_type cs)"
  let ?b = "InternalNode m ds"
  have ne: "node_type ?b \<noteq> ?P" using assms(1) by simp
  have "tsize ?P = tsize (node_type ?b)" using assms(2) by simp
  then have "?P \<notin> set (type_bases (node_type ?b))"
    using tsize_type_bases [of ?P "node_type ?b"] by auto
  then have "filter (\<lambda>x. node_type x = ?P) (bases ?b) = []"
    by (rule filter_bases_absent)
  with ne show ?thesis by (simp add: get_def)
qed

section \<open>The traversal engine\<close>

lemma scan_recur_fold:
  "inher_tree_scan_recur func P (Bs = []) Bs s =
     fold (\<lambda>Child r. Option.bind r (func P Child)) Bs (Some s)"
proof (induction Bs arbitrary: s)
  case Nil
  show ?case by simp
next
  case (Cons C Bs)
  have none: "fold (\<lambda>Child r. Option.bind r (func P Child)) Bs None = None"
    by (induction Bs) simp_all
  show ?case
  proof (cases "func P C s")
    case None
    then show ?thesis by (simp add: none)
  next
    case (Some s')
    then show ?thesis by (simp add: Cons.IH)
  qed
qed

lemma fold_record_state:
  "fold (\<lambda>Child r. Option.bind r (\<lambda>(ps, calls). Some (ps, calls @ [g Child ps]))) xs
     (Some (ps, l)) =
   Some (ps, l @ map (\<lambda>C. g C ps) xs)"
  by (induction xs arbitrary: l) simp_all

lemma fold_record_moved:
  "fold (\<lambda>Child r. Option.bind r (\<lambda>(ps, calls). Some (m, calls @ [g Child ps]))) xs
     (Some (m, l)) =
   Some (m, l @ map (\<lambda>C. g C m) xs)"
  by (induction xs arbitrary: l) simp_all

lemma scan_fold:
  "inher_tree_scan func (InternalT n Bs) s =
     fold (\<lambda>Child r. Option.bind r (func (InternalT n Bs) Child)) Bs (Some s)"
  by (simp add: scan_recur_fold)

lemma inher_tree_scan_leaf: "inher_tree_scan func (node_type (LeafNode n t v)) s = None"
  by simp

lemma scan_recur_single:
  "inher_tree_scan_recur (\<lambda>P C (a, u). map_option (\<lambda>a'. (a', u)) (func P C a)) P e Bs (a, u) =
     map_option (\<lambda>a'. (a', u)) (inher_tree_scan_recur func P e Bs a)"
proof (induction Bs arbitrary: e a)
  case Nil
  show ?case by (cases e) simp_all
next
  case (Cons B Bs)
  show ?case
  proof (cases e)
    case True
    then show ?thesis by simp
  next
    case False
    show ?thesis
    proof (cases "func P B a")
      case None
      with False show ?thesis by simp
    next
      case (Some a')
      with False Cons.IH [of "Bs = []" a'] show ?thesis by simp
    qed
  qed
qed

lemma scan_single:
  "inher_tree_scan (\<lambda>P C (a, u). map_option (\<lambda>a'. (a', u)) (func P C a)) P (a, u) =
     map_option (\<lambda>a'. (a', u)) (inher_tree_scan func P a)"
  by (cases P) (simp_all add: scan_recur_single)

lemma thread_cong:
  "(\<And>c x. c \<in> set cs \<Longrightarrow> h c x = h' c x) \<Longrightarrow> thread h cs x = thread h' cs x"
  by (induction cs arbitrary: x) (simp_all split: option.splits)

lemma thread_rejects:
  "\<exists>c\<in>set cs. \<forall>x. h c x = None \<Longrightarrow> thread h cs x = None"
proof (induction cs arbitrary: x)
  case Nil
  then show ?case by simp
next
  case (Cons c cs)
  show ?case
  proof (cases "\<forall>x. h c x = None")
    case True
    then show ?thesis by simp
  next
    case False
    with Cons.prems have "\<exists>c\<in>set cs. \<forall>x. h c x = None" by auto
    then have "\<And>x. thread h cs x = None" by (rule Cons.IH)
    then show ?thesis by (simp split: option.splits)
  qed
qed

lemma scan_children_any:
  assumes P: "P = InternalT n (map node_type (pre @ post))"
    and tp: "\<And>c x c' x'. c \<in> set post \<Longrightarrow> h c x = Some (c', x') \<Longrightarrow> node_type c' = node_type c"
    and fn: "\<And>C a x. func P C (a, x) =
               (case get C a of
                  None \<Rightarrow> None
                | Some d \<Rightarrow> (case h d x of None \<Rightarrow> None | Some (d', x') \<Rightarrow> Some (put C d' a, x')))"
  shows "inher_tree_scan_recur func P (post = []) (map node_type post) (InternalNode n (pre @ post), x) =
           (case thread (\<lambda>c x. if count_list (type_bases P) (node_type c) = 1 then h c x else None)
                   post x of
              None \<Rightarrow> None
            | Some (post', x') \<Rightarrow> Some (InternalNode n (pre @ post'), x'))"
  using P tp
proof (induction post arbitrary: pre x)
  case Nil
  show ?case by simp
next
  case (Cons c rest)
  let ?h = "\<lambda>c x. if count_list (type_bases P) (node_type c) = 1 then h c x else None"
  have start: "inher_tree_scan_recur func P (c # rest = []) (map node_type (c # rest))
            (InternalNode n (pre @ c # rest), x) =
          inher_tree_scan_recur func P False (node_type c # map node_type rest)
            (InternalNode n (pre @ c # rest), x)"
    by simp
  show ?case
  proof (cases "count_list (type_bases P) (node_type c) = 1")
    case False
    then have "count_list (type_bases (InternalT n (map node_type (pre @ c # rest)))) (node_type c) \<noteq> 1"
      using Cons.prems(1) by simp
    then have g: "get (node_type c) (InternalNode n (pre @ c # rest)) = None"
      by (rule get_ambiguous)
    have "inher_tree_scan_recur func P False (node_type c # map node_type rest)
            (InternalNode n (pre @ c # rest), x) = None"
      by (simp only: inher_tree_scan_recur.simps fn g option.case)
    with start False show ?thesis by simp
  next
    case True
    then have one: "count_list (type_bases (InternalT n (map node_type (pre @ c # rest)))) (node_type c) = 1"
      using Cons.prems(1) by simp
    have g: "get (node_type c) (InternalNode n (pre @ c # rest)) = Some c"
      using one by (rule get_direct)
    show ?thesis
    proof (cases "h c x")
      case None
      have "inher_tree_scan_recur func P False (node_type c # map node_type rest)
            (InternalNode n (pre @ c # rest), x) = None"
        by (simp only: inher_tree_scan_recur.simps fn g option.case None)
      with start True None show ?thesis by simp
    next
      case (Some r)
      obtain c' x' where r: "r = (c', x')" by (cases r)
      have ty: "node_type c' = node_type c"
        using Cons.prems(2) [of c x c' x'] Some r by simp
      have p: "put (node_type c) c' (InternalNode n (pre @ c # rest)) = InternalNode n ((pre @ [c']) @ rest)"
        using put_direct [OF one, of c'] by simp
      have P': "P = InternalT n (map node_type ((pre @ [c']) @ rest))"
        using Cons.prems(1) ty by simp
      have IH: "inher_tree_scan_recur func P (rest = []) (map node_type rest)
                  (InternalNode n ((pre @ [c']) @ rest), x') =
                (case thread ?h rest x' of
                   None \<Rightarrow> None
                 | Some (post', x'') \<Rightarrow> Some (InternalNode n ((pre @ [c']) @ post'), x''))"
        by (rule Cons.IH [OF P']) (rule Cons.prems(2), simp_all)
      note start
      also have "inher_tree_scan_recur func P False (node_type c # map node_type rest)
            (InternalNode n (pre @ c # rest), x) =
          inher_tree_scan_recur func P (rest = []) (map node_type rest)
            (InternalNode n ((pre @ [c']) @ rest), x')"
        by (simp only: inher_tree_scan_recur.simps fn g option.case Some r prod.case p Let_def
              map_is_Nil_conv)
      also note IH
      also have "(case thread ?h rest x' of
                   None \<Rightarrow> None
                 | Some (post', x'') \<Rightarrow> Some (InternalNode n ((pre @ [c']) @ post'), x'')) =
            (case thread ?h (c # rest) x of
                None \<Rightarrow> None
              | Some (post', x') \<Rightarrow> Some (InternalNode n (pre @ post'), x'))"
        using Some r True by (simp split: option.splits)
      finally show ?thesis .
    qed
  qed
qed

lemma scan_node_any:
  assumes tp: "\<And>c x c' x'. c \<in> set cs \<Longrightarrow> h c x = Some (c', x') \<Longrightarrow> node_type c' = node_type c"
    and fn: "\<And>C a x. func (InternalT n (map node_type cs)) C (a, x) =
               (case get C a of
                  None \<Rightarrow> None
                | Some d \<Rightarrow> (case h d x of None \<Rightarrow> None | Some (d', x') \<Rightarrow> Some (put C d' a, x')))"
  shows "inher_tree_scan func (node_type (InternalNode n cs)) (InternalNode n cs, x) =
           (case thread (\<lambda>c x. if count_list (type_bases (InternalT n (map node_type cs))) (node_type c) = 1
                                then h c x else None) cs x of
              None \<Rightarrow> None
            | Some (cs', x') \<Rightarrow> Some (InternalNode n cs', x'))"
proof -
  have "inher_tree_scan_recur func (InternalT n (map node_type cs)) (cs = []) (map node_type cs)
          (InternalNode n ([] @ cs), x) =
        (case thread (\<lambda>c x. if count_list (type_bases (InternalT n (map node_type cs))) (node_type c) = 1
                                then h c x else None) cs x of
           None \<Rightarrow> None
         | Some (cs', x') \<Rightarrow> Some (InternalNode n ([] @ cs'), x'))"
  proof (rule scan_children_any)
    show "InternalT n (map node_type cs) = InternalT n (map node_type ([] @ cs))" by simp
  qed (fact tp, fact fn)
  then show ?thesis by (simp split: option.splits)
qed

lemma scan_node:
  assumes cnt: "\<forall>T\<in>set (map node_type cs). count_list (type_bases (InternalT n (map node_type cs))) T = 1"
    and tp: "\<And>c x c' x'. c \<in> set cs \<Longrightarrow> h c x = Some (c', x') \<Longrightarrow> node_type c' = node_type c"
    and fn: "\<And>C a x. func (InternalT n (map node_type cs)) C (a, x) =
               (case get C a of
                  None \<Rightarrow> None
                | Some d \<Rightarrow> (case h d x of None \<Rightarrow> None | Some (d', x') \<Rightarrow> Some (put C d' a, x')))"
  shows "inher_tree_scan func (node_type (InternalNode n cs)) (InternalNode n cs, x) =
           (case thread h cs x of
              None \<Rightarrow> None
            | Some (cs', x') \<Rightarrow> Some (InternalNode n cs', x'))"
proof -
  have "thread (\<lambda>c x. if count_list (type_bases (InternalT n (map node_type cs))) (node_type c) = 1
                                then h c x else None) cs x = thread h cs x"
    by (rule thread_cong) (use cnt in simp)
  with scan_node_any [of cs h func n x, OF tp fn] show ?thesis by simp
qed

lemma thread_single:
  "thread (\<lambda>c u. map_option (\<lambda>c'. (c', u)) (h c)) cs u =
     map_option (\<lambda>cs'. (cs', u)) (those (map h cs))"
proof (induction cs)
  case Nil
  show ?case by simp
next
  case (Cons c cs)
  then show ?case by (cases "h c"; cases "those (map h cs)") simp_all
qed

lemma scan_node_single:
  assumes cnt: "\<forall>T\<in>set (map node_type cs). count_list (type_bases (InternalT n (map node_type cs))) T = 1"
    and tp: "\<And>c c'. c \<in> set cs \<Longrightarrow> h c = Some c' \<Longrightarrow> node_type c' = node_type c"
    and fn: "\<And>C a. func (InternalT n (map node_type cs)) C a =
               (case get C a of
                  None \<Rightarrow> None
                | Some d \<Rightarrow> (case h d of None \<Rightarrow> None | Some d' \<Rightarrow> Some (put C d' a)))"
  shows "inher_tree_scan func (node_type (InternalNode n cs)) (InternalNode n cs) =
           map_option (InternalNode n) (those (map h cs))"
proof -
  let ?func = "\<lambda>P C (a, u :: bool). map_option (\<lambda>a'. (a', u)) (func P C a)"
  let ?h = "\<lambda>c (u :: bool). map_option (\<lambda>c'. (c', u)) (h c)"
  have "inher_tree_scan ?func (node_type (InternalNode n cs)) (InternalNode n cs, True) =
           (case thread ?h cs True of
              None \<Rightarrow> None
            | Some (cs', x') \<Rightarrow> Some (InternalNode n cs', x'))"
  proof (rule scan_node)
    show "\<forall>T\<in>set (map node_type cs).
            count_list (type_bases (InternalT n (map node_type cs))) T = 1"
      by (rule cnt)
  next
    fix c x c' x'
    assume "c \<in> set cs" "?h c x = Some (c', x')"
    with tp [of c c'] show "node_type c' = node_type c" by auto
  next
    fix C a x
    show "?func (InternalT n (map node_type cs)) C (a, x) =
       (case get C a of
          None \<Rightarrow> None
        | Some d \<Rightarrow> (case ?h d x of None \<Rightarrow> None | Some (d', x') \<Rightarrow> Some (put C d' a, x')))"
      by (simp add: fn split: option.splits)
  qed
  then have "map_option (\<lambda>a'. (a', True))
        (inher_tree_scan func (node_type (InternalNode n cs)) (InternalNode n cs)) =
      map_option (\<lambda>a'. (a', True)) (map_option (InternalNode n) (those (map h cs)))"
    by (simp only: scan_single thread_single) (simp split: option.splits)
  then show ?thesis
    by (cases "inher_tree_scan func (node_type (InternalNode n cs)) (InternalNode n cs)";
        cases "those (map h cs)") simp_all
qed

lemma scan_rejects:
  assumes bad: "\<exists>c\<in>set cs. count_list (type_bases (InternalT n (map node_type cs))) (node_type c) \<noteq> 1 \<or>
                  (\<forall>x. h c x = None)"
    and tp: "\<And>c x c' x'. c \<in> set cs \<Longrightarrow> h c x = Some (c', x') \<Longrightarrow> node_type c' = node_type c"
    and fn: "\<And>C a x. func (InternalT n (map node_type cs)) C (a, x) =
               (case get C a of
                  None \<Rightarrow> None
                | Some d \<Rightarrow> (case h d x of None \<Rightarrow> None | Some (d', x') \<Rightarrow> Some (put C d' a, x')))"
  shows "inher_tree_scan func (node_type (InternalNode n cs)) (InternalNode n cs, x) = None"
proof -
  have "thread (\<lambda>c x. if count_list (type_bases (InternalT n (map node_type cs))) (node_type c) = 1
                                then h c x else None) cs x = None"
    by (rule thread_rejects) (use bad in auto)
  with scan_node_any [of cs h func n x, OF tp fn] show ?thesis by simp
qed

lemma rand_gen_f_apply_child:
  "rand_gen_f_apply h P C (a, x) =
     (case get C a of
        None \<Rightarrow> None
      | Some d \<Rightarrow> (case h d x of None \<Rightarrow> None | Some (d', x') \<Rightarrow> Some (put C d' a, x')))"
  by (simp add: rand_gen_f_apply_def)

lemma print_f_apply_child:
  "print_f_apply pr P C (a, x) =
     (case get C a of
        None \<Rightarrow> None
      | Some d \<Rightarrow> (case print_child pr d x of None \<Rightarrow> None | Some (d', x') \<Rightarrow> Some (put C d' a, x')))"
  by (cases x) (simp add: print_f_apply_def print_child_def split: option.splits)

lemma add_eq_apply_child:
  "add_eq_apply f P C (a, x) =
     (case get C a of
        None \<Rightarrow> None
      | Some d \<Rightarrow> (case add_child f P d x of None \<Rightarrow> None | Some (d', x') \<Rightarrow> Some (put C d' a, x')))"
proof (cases "get C a")
  case None
  then show ?thesis by (simp add: add_eq_apply_def split: option.splits)
next
  case (Some d)
  then have d: "node_type d = C" by (rule get_type)
  show ?thesis
  proof (cases "get P x")
    case None
    then show ?thesis by (simp add: add_eq_apply_def add_child_def Some)
  next
    case b': (Some b')
    show ?thesis
    proof (cases "get C b'")
      case None
      then show ?thesis by (simp add: add_eq_apply_def add_child_def Some b' d)
    next
      case cb: (Some cb)
      show ?thesis
        by (cases "f d cb") (auto simp: add_eq_apply_def add_child_def Some b' d cb)
    qed
  qed
qed

section \<open>Leaves and well-formed types\<close>

lemma leaf_paths_leaves: "map snd (leaf_paths T) = leaves T"
proof (induction T)
  case (LeafNode n t v)
  show ?case by simp
next
  case (InternalNode n cs)
  have e: "map (\<lambda>c. map snd (leaf_paths c)) cs = map leaves cs"
    by (rule map_cong [OF refl]) (rule InternalNode.IH)
  show ?case by (simp add: map_concat o_def case_prod_unfold e)
qed

lemma leaves_declared: "map (\<lambda>(n, t, v). (n, t)) (leaves T) = declared_leaves (node_type T)"
proof (induction T)
  case (LeafNode n t v)
  show ?case by simp
next
  case (InternalNode n cs)
  have e: "map (\<lambda>c. map (\<lambda>(n, t, v). (n, t)) (leaves c)) cs = map (\<lambda>c. declared_leaves (node_type c)) cs"
    by (rule map_cong [OF refl]) (rule InternalNode.IH)
  show ?case by (simp add: map_concat o_def e)
qed

lemma leaves_length: "node_type a = node_type b \<Longrightarrow> length (leaves a) = length (leaves b)"
  using arg_cong [OF leaves_declared [of a], of length] arg_cong [OF leaves_declared [of b], of length]
  by simp

lemma zip_concat:
  "length xss = length yss \<Longrightarrow> \<forall>i<length xss. length (xss ! i) = length (yss ! i) \<Longrightarrow>
   zip (concat xss) (concat yss) = concat (map2 zip xss yss)"
proof (induction xss yss rule: list_induct2)
  case Nil
  show ?case by simp
next
  case (Cons xs xss ys yss)
  from Cons.prems have l: "length xs = length ys" by auto
  from Cons.prems have "\<forall>i<length xss. length (xss ! i) = length (yss ! i)" by auto
  with Cons.IH l show ?case by simp
qed

lemma map2_same: "map2 g (map f xs) (map h xs) = map (\<lambda>x. g (f x) (h x)) xs"
  by (induction xs) simp_all

lemma concat_map_concat_lists:
  "concat (map F (concat xss)) = concat (map (\<lambda>xs. concat (map F xs)) xss)"
  by (induction xss) simp_all

lemma well_formed_child:
  "well_formed (InternalT n cs) \<Longrightarrow> c \<in> set cs \<Longrightarrow> well_formed c"
  by simp

lemma well_formed_count:
  "well_formed (InternalT n cs) \<Longrightarrow>
   \<forall>T\<in>set cs. count_list (type_bases (InternalT n cs)) T = 1"
  by simp

lemma ill_formed_child:
  "\<not> well_formed (InternalT n (map node_type cs)) \<Longrightarrow>
   \<exists>c\<in>set cs. count_list (type_bases (InternalT n (map node_type cs))) (node_type c) \<noteq> 1 \<or>
              \<not> well_formed (node_type c)"
  by auto

lemma wf_Bar: "well_formed Bar"
  by (simp add: Bar_def)

lemma foo_type: "node_type foo = Bar"
  by (simp add: foo_def Bar_def)

lemma wf_foo: "well_formed (node_type foo)"
  by (simp add: foo_def)

lemma leaves_foo:
  "leaves foo = [(''A'', CInt, 3), (''B'', CFloat, 10), (''D'', CDouble, 20),
                 (''E'', CLong, 30), (''F'', CDouble, 40), (''G'', CInt, 50)]"
  by (simp add: foo_def)

lemma leaves_bar:
  "leaves bar = [(''A'', CInt, 2), (''B'', CFloat, 1), (''D'', CDouble, 2),
                 (''E'', CLong, 3), (''F'', CDouble, 4), (''G'', CInt, 5)]"
  by (simp add: bar_def)

lemma leaf_paths_foo:
  "leaf_paths foo =
     [([''one''], ''A'', CInt, 3), ([''one''], ''B'', CFloat, 10),
      ([''one'', ''two''], ''D'', CDouble, 20), ([''one'', ''two'', ''three''], ''E'', CLong, 30),
      ([''one''], ''F'', CDouble, 40), ([''one''], ''G'', CInt, 50)]"
  by (simp add: foo_def)

section \<open>Default construction\<close>

lemma construct_type: "node_type (construct zero_of T) = T"
proof (induction T)
  case (LeafT n t)
  show ?case by simp
next
  case (InternalT n cs)
  then have "map (node_type \<circ> construct zero_of) cs = cs"
    by (simp add: map_idI)
  then show ?case by simp
qed

section \<open>rand_gen\<close>

lemma samples_append:
  "samples dist cast (xs @ ys) g =
     (let (xs', g') = samples dist cast xs g;
          (ys', g'') = samples dist cast ys g'
      in (xs' @ ys', g''))"
  by (induction xs arbitrary: g) (auto split: prod.splits)

lemma samples_length: "length (fst (samples dist cast ls g)) = length ls"
proof (induction ls arbitrary: g)
  case Nil
  show ?case by simp
next
  case (Cons l ls)
  obtain n t v where l: "l = (n, t, v)" by (cases l)
  have "fst (samples dist cast (l # ls) g) =
      (n, t, cast t (fst (dist g))) # fst (samples dist cast ls (snd (dist g)))"
    by (simp add: l split: prod.splits)
  then show ?case by (simp add: Cons.IH)
qed

lemma samples_generator:
  "snd (samples dist cast ls g) = ((snd \<circ> dist) ^^ length ls) g"
proof (induction ls arbitrary: g)
  case Nil
  show ?case by simp
next
  case (Cons l ls)
  obtain n t v where l: "l = (n, t, v)" by (cases l)
  have "snd (samples dist cast (l # ls) g) = snd (samples dist cast ls (snd (dist g)))"
    by (simp add: l split: prod.splits)
  also have "\<dots> = ((snd \<circ> dist) ^^ length ls) (snd (dist g))" by (rule Cons.IH)
  also have "\<dots> = ((snd \<circ> dist) ^^ length (l # ls)) g" by (simp add: funpow_swap1)
  finally show ?case .
qed

lemma samples_nth:
  "i < length ls \<Longrightarrow>
   fst (samples dist cast ls g) ! i =
     (case ls ! i of (n, t, v) \<Rightarrow> (n, t, cast t (fst (dist (((snd \<circ> dist) ^^ i) g)))))"
proof (induction ls arbitrary: g i)
  case Nil
  then show ?case by simp
next
  case (Cons l ls)
  obtain n t v where l: "l = (n, t, v)" by (cases l)
  show ?case
  proof (cases i)
    case 0
    then show ?thesis by (simp add: l split: prod.splits)
  next
    case (Suc j)
    with Cons.prems have j: "j < length ls" by simp
    have "fst (samples dist cast (l # ls) g) ! i = fst (samples dist cast ls (snd (dist g))) ! j"
      by (simp add: l Suc split: prod.splits)
    also have "\<dots> = (case ls ! j of (n, t, v) \<Rightarrow>
        (n, t, cast t (fst (dist (((snd \<circ> dist) ^^ j) (snd (dist g)))))))"
      by (rule Cons.IH [OF j])
    also have "\<dots> = (case (l # ls) ! i of (n, t, v) \<Rightarrow>
        (n, t, cast t (fst (dist (((snd \<circ> dist) ^^ i) g)))))"
      by (simp add: Suc funpow_swap1)
    finally show ?thesis .
  qed
qed

lemma thread_samples:
  assumes "\<And>c g. c \<in> set cs \<Longrightarrow>
     \<exists>c'. h c g = Some (c', snd (samples dist cast (leaves c) g)) \<and>
          node_type c' = node_type c \<and> leaves c' = fst (samples dist cast (leaves c) g)"
  shows "\<exists>cs'. thread h cs g = Some (cs', snd (samples dist cast (concat (map leaves cs)) g)) \<and>
          map node_type cs' = map node_type cs \<and>
          concat (map leaves cs') = fst (samples dist cast (concat (map leaves cs)) g)"
  using assms
proof (induction cs arbitrary: g)
  case Nil
  show ?case by simp
next
  case (Cons c cs)
  from Cons.prems [of c g] obtain c' where
    c': "h c g = Some (c', snd (samples dist cast (leaves c) g))"
        "node_type c' = node_type c" "leaves c' = fst (samples dist cast (leaves c) g)"
    by auto
  let ?g = "snd (samples dist cast (leaves c) g)"
  from Cons.IH [of ?g] Cons.prems obtain cs' where
    cs': "thread h cs ?g = Some (cs', snd (samples dist cast (concat (map leaves cs)) ?g))"
         "map node_type cs' = map node_type cs"
         "concat (map leaves cs') = fst (samples dist cast (concat (map leaves cs)) ?g)"
    by auto
  show ?case
    by (rule exI [of _ "c' # cs'"])
       (simp add: c' cs' samples_append split: prod.splits)
qed

lemma rand_gen_samples:
  "well_formed (node_type T) \<Longrightarrow>
   \<exists>T'. rand_gen normal_distribution static_cast T g =
           Some (T', snd (samples (normal_distribution 100 50) static_cast (leaves T) g)) \<and>
        node_type T' = node_type T \<and>
        leaves T' = fst (samples (normal_distribution 100 50) static_cast (leaves T) g)"
proof (induction T arbitrary: g)
  case (LeafNode n t v)
  show ?case by (simp split: prod.splits)
next
  case (InternalNode n cs)
  let ?h = "rand_gen normal_distribution static_cast"
  let ?dist = "normal_distribution 100 50"
  have wfc: "\<And>c. c \<in> set cs \<Longrightarrow> well_formed (node_type c)"
    using InternalNode.prems by simp
  have child: "\<And>c g. c \<in> set cs \<Longrightarrow>
     \<exists>c'. ?h c g = Some (c', snd (samples ?dist static_cast (leaves c) g)) \<and>
          node_type c' = node_type c \<and> leaves c' = fst (samples ?dist static_cast (leaves c) g)"
    using InternalNode.IH wfc by blast
  have scan: "inher_tree_scan (rand_gen_f_apply ?h) (node_type (InternalNode n cs)) (InternalNode n cs, g) =
           (case thread ?h cs g of
              None \<Rightarrow> None
            | Some (cs', x') \<Rightarrow> Some (InternalNode n cs', x'))"
  proof (rule scan_node)
    show "\<forall>T\<in>set (map node_type cs).
            count_list (type_bases (InternalT n (map node_type cs))) T = 1"
      using InternalNode.prems by simp
  next
    fix c x c' x'
    assume "c \<in> set cs" "?h c x = Some (c', x')"
    with child [of c x] show "node_type c' = node_type c" by auto
  next
    fix C a x
    show "rand_gen_f_apply ?h (InternalT n (map node_type cs)) C (a, x) =
       (case get C a of
          None \<Rightarrow> None
        | Some d \<Rightarrow> (case ?h d x of None \<Rightarrow> None | Some (d', x') \<Rightarrow> Some (put C d' a, x')))"
      by (simp add: rand_gen_f_apply_def)
  qed
  from thread_samples [of cs ?h ?dist static_cast g, OF child] obtain cs' where
    cs': "thread ?h cs g = Some (cs', snd (samples ?dist static_cast (concat (map leaves cs)) g))"
         "map node_type cs' = map node_type cs"
         "concat (map leaves cs') = fst (samples ?dist static_cast (concat (map leaves cs)) g)"
    by blast
  have "?h (InternalNode n cs) g =
      inher_tree_scan (rand_gen_f_apply ?h) (node_type (InternalNode n cs)) (InternalNode n cs, g)"
    by (simp only: rand_gen.simps)
  also note scan
  finally have "?h (InternalNode n cs) g =
      Some (InternalNode n cs', snd (samples ?dist static_cast (concat (map leaves cs)) g))"
    by (simp add: cs')
  then show ?case
    by (intro exI [of _ "InternalNode n cs'"]) (simp add: cs')
qed

lemma rand_gen_rejects:
  "\<not> well_formed (node_type T) \<Longrightarrow> rand_gen normal_distribution static_cast T g = None"
proof (induction T arbitrary: g)
  case (LeafNode n t v)
  then show ?case by simp
next
  case (InternalNode n cs)
  let ?h = "rand_gen normal_distribution static_cast"
  have "inher_tree_scan (rand_gen_f_apply ?h) (node_type (InternalNode n cs)) (InternalNode n cs, g) = None"
  proof (rule scan_rejects [where h = ?h])
    from InternalNode.prems have "\<not> well_formed (InternalT n (map node_type cs))" by simp
    then have "\<exists>c\<in>set cs.
        count_list (type_bases (InternalT n (map node_type cs))) (node_type c) \<noteq> 1 \<or>
        \<not> well_formed (node_type c)"
      by (rule ill_formed_child)
    then show "\<exists>c\<in>set cs.
        count_list (type_bases (InternalT n (map node_type cs))) (node_type c) \<noteq> 1 \<or>
        (\<forall>x. ?h c x = None)"
      using InternalNode.IH by blast
  next
    fix c x c' x'
    assume c: "c \<in> set cs" and h: "?h c x = Some (c', x')"
    show "node_type c' = node_type c"
    proof (cases "well_formed (node_type c)")
      case True
      from rand_gen_samples [OF True, of normal_distribution static_cast x] h
      show ?thesis by auto
    next
      case False
      from InternalNode.IH [OF c False, of x] h show ?thesis by simp
    qed
  next
    fix C a x
    show "rand_gen_f_apply ?h (InternalT n (map node_type cs)) C (a, x) =
       (case get C a of
          None \<Rightarrow> None
        | Some d \<Rightarrow> (case ?h d x of None \<Rightarrow> None | Some (d', x') \<Rightarrow> Some (put C d' a, x')))"
      by (rule rand_gen_f_apply_child)
  qed
  then show ?case by (simp only: rand_gen.simps)
qed

lemma rand_gen_accepted_iff:
  "(rand_gen normal_distribution static_cast T g \<noteq> None) = well_formed (node_type T)"
proof (cases "well_formed (node_type T)")
  case True
  with rand_gen_samples [OF True, of normal_distribution static_cast g] show ?thesis by auto
next
  case False
  with rand_gen_rejects [OF False, of normal_distribution static_cast g] show ?thesis by simp
qed

section \<open>print\<close>

lemma leaf_line_Cons:
  "leaf_line format prefix (n # path, l) = leaf_line format (space_join prefix n) (path, l)"
  by (simp add: leaf_line_def)

lemma thread_print:
  assumes "\<And>c p co. c \<in> set cs \<Longrightarrow> pr c p co = Some (c, co @ L p c)"
  shows "thread (\<lambda>c (p, co). case pr c p co of None \<Rightarrow> None | Some (c', co') \<Rightarrow> Some (c', p, co'))
           cs (p, co) =
         Some (cs, p, co @ concat (map (L p) cs))"
  using assms
proof (induction cs arbitrary: co)
  case Nil
  show ?case by simp
next
  case (Cons c cs)
  have "thread (\<lambda>c (p, co). case pr c p co of None \<Rightarrow> None | Some (c', co') \<Rightarrow> Some (c', p, co'))
           cs (p, co @ L p c) =
         Some (cs, p, (co @ L p c) @ concat (map (L p) cs))"
    by (rule Cons.IH) (rule Cons.prems, simp)
  then show ?case by (simp add: Cons.prems)
qed

lemma print_exact:
  "well_formed (node_type T) \<Longrightarrow>
   print format T prefix cout =
     Some (T, cout @ concat (map (leaf_line format prefix) (leaf_paths T)))"
proof (induction T arbitrary: prefix cout)
  case (LeafNode n t v)
  show ?case by (simp add: leaf_line_def space_join_def)
next
  case (InternalNode n cs)
  let ?pr = "print format"
  let ?h = "\<lambda>c (p, co). case ?pr c p co of None \<Rightarrow> None | Some (c', co') \<Rightarrow> Some (c', p, co')"
  let ?L = "\<lambda>p c. concat (map (leaf_line format p) (leaf_paths c))"
  let ?p = "space_join prefix n"
  have child: "\<And>c p co. c \<in> set cs \<Longrightarrow> ?pr c p co = Some (c, co @ ?L p c)"
    using InternalNode.IH InternalNode.prems by simp
  have scan: "inher_tree_scan (print_f_apply ?pr) (node_type (InternalNode n cs))
                (InternalNode n cs, ?p, cout) =
           (case thread ?h cs (?p, cout) of
              None \<Rightarrow> None
            | Some (cs', x') \<Rightarrow> Some (InternalNode n cs', x'))"
  proof (rule scan_node)
    show "\<forall>T\<in>set (map node_type cs).
            count_list (type_bases (InternalT n (map node_type cs))) T = 1"
      using InternalNode.prems by simp
  next
    fix c x c' x'
    assume "c \<in> set cs" "?h c x = Some (c', x')"
    with child [of c "fst x" "snd x"] show "node_type c' = node_type c"
      by (cases x) auto
  next
    fix C a x
    show "print_f_apply ?pr (InternalT n (map node_type cs)) C (a, x) =
       (case get C a of
          None \<Rightarrow> None
        | Some d \<Rightarrow> (case ?h d x of None \<Rightarrow> None | Some (d', x') \<Rightarrow> Some (put C d' a, x')))"
      by (cases x) (simp add: print_f_apply_def split: option.splits)
  qed
  have th: "thread ?h cs (?p, cout) = Some (cs, ?p, cout @ concat (map (?L ?p) cs))"
    by (rule thread_print) (rule child)
  have pre: "(if prefix \<noteq> [] then prefix @ '' '' else prefix) @ n = ?p"
    by (simp add: space_join_def)
  have "?pr (InternalNode n cs) prefix cout =
      (case inher_tree_scan (print_f_apply ?pr) (node_type (InternalNode n cs))
              (InternalNode n cs, ?p, cout) of
         None \<Rightarrow> None
       | Some (this, prefix', cout') \<Rightarrow> Some (this, cout'))"
    by (simp only: print.simps Let_def pre)
  also have "\<dots> = Some (InternalNode n cs, cout @ concat (map (?L ?p) cs))"
    by (simp only: scan th option.case prod.case)
  also have "concat (map (?L ?p) cs) =
      concat (map (leaf_line format prefix) (leaf_paths (InternalNode n cs)))"
  proof -
    have e: "(\<lambda>x. leaf_line format prefix (case x of (path, l) \<Rightarrow> (n # path, l))) =
        leaf_line format ?p"
      by (rule ext) (auto simp: leaf_line_Cons)
    show ?thesis
      by (simp add: concat_map_concat_lists o_def e)
  qed
  finally show ?case .
qed

lemma print_lines_per_leaf:
  "map (leaf_line format prefix) (leaf_paths T) =
     map2 (\<lambda>acc (n, t, v). acc @ n @ '' == '' @ format t v @ endl)
       (map (\<lambda>(path, l). separator (foldl space_join prefix path)) (leaf_paths T)) (leaves T)"
proof -
  have "map2 (\<lambda>acc (n, t, v). acc @ n @ '' == '' @ format t v @ endl)
       (map (\<lambda>(path, l). separator (foldl space_join prefix path)) (leaf_paths T))
       (map snd (leaf_paths T)) =
     map (leaf_line format prefix) (leaf_paths T)"
    unfolding map2_same
    by (rule map_cong [OF refl])
       (simp add: leaf_line_def space_join_def separator_def case_prod_unfold)
  then show ?thesis by (simp only: leaf_paths_leaves)
qed

lemma print_rejects:
  "\<not> well_formed (node_type T) \<Longrightarrow> print format T prefix cout = None"
proof (induction T arbitrary: prefix cout)
  case (LeafNode n t v)
  then show ?case by simp
next
  case (InternalNode n cs)
  let ?pr = "print format"
  let ?p = "(if prefix \<noteq> [] then prefix @ '' '' else prefix) @ n"
  have "inher_tree_scan (print_f_apply ?pr) (node_type (InternalNode n cs))
          (InternalNode n cs, ?p, cout) = None"
  proof (rule scan_rejects [where h = "print_child ?pr"])
    from InternalNode.prems have "\<not> well_formed (InternalT n (map node_type cs))" by simp
    then have "\<exists>c\<in>set cs.
        count_list (type_bases (InternalT n (map node_type cs))) (node_type c) \<noteq> 1 \<or>
        \<not> well_formed (node_type c)"
      by (rule ill_formed_child)
    then obtain c where c: "c \<in> set cs"
      and bad: "count_list (type_bases (InternalT n (map node_type cs))) (node_type c) \<noteq> 1 \<or>
        \<not> well_formed (node_type c)"
      by blast
    have "count_list (type_bases (InternalT n (map node_type cs))) (node_type c) \<noteq> 1 \<or>
        (\<forall>x. print_child ?pr c x = None)"
    proof (cases "well_formed (node_type c)")
      case True
      with bad show ?thesis by simp
    next
      case False
      have "\<And>x. print_child ?pr c x = None"
        using InternalNode.IH [OF c False] by (simp add: print_child_def split: prod.splits)
      then show ?thesis by simp
    qed
    with c show "\<exists>c\<in>set cs.
        count_list (type_bases (InternalT n (map node_type cs))) (node_type c) \<noteq> 1 \<or>
        (\<forall>x. print_child ?pr c x = None)"
      by blast
  next
    fix c x c' x'
    assume c: "c \<in> set cs" and h: "print_child ?pr c x = Some (c', x')"
    show "node_type c' = node_type c"
    proof (cases "well_formed (node_type c)")
      case True
      from print_exact [OF True, of format "fst x" "snd x"] h
      show ?thesis by (cases x) (auto simp: print_child_def)
    next
      case False
      from InternalNode.IH [OF c False, of "fst x" "snd x"] h show ?thesis
        by (cases x) (simp add: print_child_def)
    qed
  next
    fix C a x
    show "print_f_apply ?pr (InternalT n (map node_type cs)) C (a, x) =
       (case get C a of
          None \<Rightarrow> None
        | Some d \<Rightarrow> (case print_child ?pr d x of None \<Rightarrow> None | Some (d', x') \<Rightarrow> Some (put C d' a, x')))"
      by (rule print_f_apply_child)
  qed
  then show ?case by (simp only: print.simps Let_def option.case)
qed

lemma print_accepted_iff:
  "(print format T prefix cout \<noteq> None) = well_formed (node_type T)"
proof (cases "well_formed (node_type T)")
  case True
  with print_exact [OF True, of format prefix cout] show ?thesis by simp
next
  case False
  with print_rejects [OF False, of format prefix cout] show ?thesis by simp
qed

section \<open>operator+=\<close>

lemma thread_zip:
  assumes "length ds = length cs"
    and "\<And>i. i < length cs \<Longrightarrow>
      \<exists>c'. h (cs ! i) x = Some (c', x) \<and> node_type c' = node_type (cs ! i) \<and>
           leaves c' = Z (leaves (cs ! i)) (leaves (ds ! i))"
  shows "\<exists>cs'. thread h cs x = Some (cs', x) \<and> map node_type cs' = map node_type cs \<and>
           concat (map leaves cs') = concat (map2 (\<lambda>c d. Z (leaves c) (leaves d)) cs ds)"
  using assms
proof (induction cs arbitrary: ds)
  case Nil
  show ?case by simp
next
  case (Cons c cs)
  from Cons.prems(1) obtain d ds' where ds: "ds = d # ds'" by (cases ds) auto
  from Cons.prems(2) [of 0] ds obtain c' where
    c': "h c x = Some (c', x)" "node_type c' = node_type c" "leaves c' = Z (leaves c) (leaves d)"
    by auto
  have "\<exists>cs'. thread h cs x = Some (cs', x) \<and> map node_type cs' = map node_type cs \<and>
           concat (map leaves cs') = concat (map2 (\<lambda>c d. Z (leaves c) (leaves d)) cs ds')"
  proof (rule Cons.IH)
    show "length ds' = length cs" using Cons.prems(1) ds by simp
    fix i assume "i < length cs"
    with Cons.prems(2) [of "Suc i"] ds
    show "\<exists>c'. h (cs ! i) x = Some (c', x) \<and> node_type c' = node_type (cs ! i) \<and>
           leaves c' = Z (leaves (cs ! i)) (leaves (ds' ! i))"
      by simp
  qed
  then obtain cs' where
    cs': "thread h cs x = Some (cs', x)" "map node_type cs' = map node_type cs"
         "concat (map leaves cs') = concat (map2 (\<lambda>c d. Z (leaves c) (leaves d)) cs ds')"
    by blast
  show ?case
    by (rule exI [of _ "c' # cs'"]) (simp add: c' cs' ds)
qed

lemma plus_eq_same_type:
  "well_formed (node_type a) \<Longrightarrow> node_type b = node_type a \<Longrightarrow>
   \<exists>a'. operator_plus_eq plus_assign a b = Some (a', b) \<and> node_type a' = node_type a \<and>
        leaves a' = map2 (add_leaf plus_assign) (leaves a) (leaves b)"
proof (induction a arbitrary: b)
  case (LeafNode n t v)
  from LeafNode.prems(2) obtain w where b: "b = LeafNode n t w" by (cases b) auto
  show ?case by (simp add: b get_self add_leaf_def)
next
  case (InternalNode n cs)
  let ?P = "InternalT n (map node_type cs)"
  let ?f = "operator_plus_eq plus_assign"
  let ?h = "\<lambda>d rhs. (case get ?P rhs of
              None \<Rightarrow> None
            | Some b' \<Rightarrow>
               (case get (node_type d) b' of
                  None \<Rightarrow> None
                | Some cb \<Rightarrow>
                   (case ?f d cb of
                      None \<Rightarrow> None
                    | Some (ca', cb') \<Rightarrow> Some (ca', put ?P (put (node_type d) cb' b') rhs))))"
  from InternalNode.prems(2) obtain ds where b: "b = InternalNode n ds"
    and ds: "map node_type ds = map node_type cs" by (cases b) auto
  have len: "length ds = length cs" using ds by (rule map_eq_imp_length_eq)
  have bt: "node_type b = ?P" using b ds by simp
  have wfc: "\<And>c. c \<in> set cs \<Longrightarrow> well_formed (node_type c)"
    using InternalNode.prems(1) by simp
  have cnt: "\<forall>T\<in>set (map node_type cs). count_list (type_bases ?P) T = 1"
    using InternalNode.prems(1) by simp
  have child: "\<And>c d. c \<in> set cs \<Longrightarrow> node_type d = node_type c \<Longrightarrow>
     \<exists>c'. ?f c d = Some (c', d) \<and> node_type c' = node_type c \<and>
          leaves c' = map2 (add_leaf plus_assign) (leaves c) (leaves d)"
    using InternalNode.IH wfc by blast
  have bind: "bind_rhs (map node_type cs) b = Some b"
    by (simp add: bind_rhs_def b ds)
  have scan: "inher_tree_scan (add_eq_apply ?f) (node_type (InternalNode n cs)) (InternalNode n cs, b) =
           (case thread ?h cs b of
              None \<Rightarrow> None
            | Some (cs', x') \<Rightarrow> Some (InternalNode n cs', x'))"
  proof (rule scan_node)
    show "\<forall>T\<in>set (map node_type cs). count_list (type_bases ?P) T = 1" by (rule cnt)
  next
    fix c x c' x'
    assume c: "c \<in> set cs" and h: "?h c x = Some (c', x')"
    from h obtain b' cb cb' where "get (node_type c) b' = Some cb" "?f c cb = Some (c', cb')"
      by (auto split: option.splits)
    with child [of c cb] c show "node_type c' = node_type c"
      by (auto dest: get_type)
  next
    fix C a x
    show "add_eq_apply ?f ?P C (a, x) =
       (case get C a of
          None \<Rightarrow> None
        | Some d \<Rightarrow> (case ?h d x of None \<Rightarrow> None | Some (d', x') \<Rightarrow> Some (put C d' a, x')))"
    proof (cases "get C a")
      case None
      then show ?thesis by (simp add: add_eq_apply_def split: option.splits)
    next
      case (Some d)
      then have d: "node_type d = C" by (rule get_type)
      show ?thesis
      proof (cases "get ?P x")
        case None
        then show ?thesis by (simp add: add_eq_apply_def Some)
      next
        case b': (Some b')
        show ?thesis
        proof (cases "get C b'")
          case None
          then show ?thesis by (simp add: add_eq_apply_def Some b' d)
        next
          case cb: (Some cb)
          show ?thesis
            by (cases "?f d cb") (auto simp: add_eq_apply_def Some b' d cb)
        qed
      qed
    qed
  qed
  have step: "\<And>i. i < length cs \<Longrightarrow>
      \<exists>c'. ?h (cs ! i) b = Some (c', b) \<and> node_type c' = node_type (cs ! i) \<and>
           leaves c' = map2 (add_leaf plus_assign) (leaves (cs ! i)) (leaves (ds ! i))"
  proof -
    fix i assume i: "i < length cs"
    let ?c = "cs ! i" and ?d = "ds ! i"
    have ty: "node_type ?d = node_type ?c"
      using ds i len by (metis nth_map)
    have split: "take i ds @ ?d # drop (Suc i) ds = ds"
      using i len by (simp add: id_take_nth_drop [symmetric])
    have "count_list (type_bases ?P) (node_type ?c) = 1"
      using cnt i by simp
    then have one: "count_list (type_bases (InternalT n (map node_type (take i ds @ ?d # drop (Suc i) ds))))
                 (node_type ?d) = 1"
      by (simp only: split ds ty)
    from get_direct [OF one] have "get (node_type ?d) (InternalNode n ds) = Some ?d"
      by (simp only: split)
    then have g: "get (node_type ?c) b = Some ?d"
      by (simp only: ty b)
    from put_direct [OF one, of ?d] have "put (node_type ?d) ?d (InternalNode n ds) = InternalNode n ds"
      by (simp only: split)
    then have p: "put (node_type ?c) ?d b = b"
      by (simp only: ty b)
    from child [of ?c ?d] i ty obtain c' where
      c': "?f ?c ?d = Some (c', ?d)" "node_type c' = node_type ?c"
          "leaves c' = map2 (add_leaf plus_assign) (leaves ?c) (leaves ?d)"
      by auto
    show "\<exists>c'. ?h ?c b = Some (c', b) \<and> node_type c' = node_type ?c \<and>
           leaves c' = map2 (add_leaf plus_assign) (leaves ?c) (leaves ?d)"
      by (rule exI [of _ c']) (simp add: get_self [OF bt] g c' p put_self [OF bt])
  qed
  from thread_zip [of ds cs ?h b "map2 (add_leaf plus_assign)", OF len step] obtain cs' where
    cs': "thread ?h cs b = Some (cs', b)" "map node_type cs' = map node_type cs"
         "concat (map leaves cs') =
            concat (map2 (\<lambda>c d. map2 (add_leaf plus_assign) (leaves c) (leaves d)) cs ds)"
    by blast
  have lens: "\<forall>i<length (map leaves cs). length (map leaves cs ! i) = length (map leaves ds ! i)"
  proof (intro allI impI)
    fix i assume "i < length (map leaves cs)"
    then have i: "i < length cs" by simp
    have t: "node_type (cs ! i) = node_type (ds ! i)" using ds i len by (metis nth_map)
    show "length (map leaves cs ! i) = length (map leaves ds ! i)"
      using i len leaves_length [OF t] by simp
  qed
  have z: "zip (concat (map leaves cs)) (concat (map leaves ds)) =
      concat (map2 zip (map leaves cs) (map leaves ds))"
    by (rule zip_concat) (simp add: len, rule lens)
  have lv: "concat (map2 (\<lambda>c d. map2 (add_leaf plus_assign) (leaves c) (leaves d)) cs ds) =
      map2 (add_leaf plus_assign) (leaves (InternalNode n cs)) (leaves b)"
    by (simp add: b z map_concat zip_map_map o_def case_prod_unfold)
  have "?f (InternalNode n cs) b =
      (case inher_tree_scan (add_eq_apply ?f) (node_type (InternalNode n cs)) (InternalNode n cs, b) of
         None \<Rightarrow> None
       | Some (this, rhs') \<Rightarrow> Some (this, put (node_type b) rhs' b))"
    by (simp only: operator_plus_eq.simps bind option.case)
  also have "\<dots> = Some (InternalNode n cs', b)"
    by (simp only: scan cs' option.case prod.case put_self [OF refl])
  finally show ?case
    using cs'(2,3) lv by simp
qed

lemma plus_eq_other_name:
  assumes "m \<noteq> n" "cs \<noteq> []" "map node_type ds = map node_type cs"
  shows "operator_plus_eq plus_assign (InternalNode n cs) (InternalNode m ds) = None"
proof -
  from assms(2) obtain c rest where cs: "cs = c # rest" by (cases cs) auto
  have bind: "bind_rhs (map node_type cs) (InternalNode m ds) = Some (InternalNode m ds)"
    by (simp add: bind_rhs_def assms(3))
  have "add_eq_apply (operator_plus_eq plus_assign) (InternalT n (map node_type cs)) (node_type c)
          (InternalNode n cs, InternalNode m ds) = None"
    by (simp add: add_eq_apply_def get_other_name [OF assms(1,3)])
  then have "inher_tree_scan (add_eq_apply (operator_plus_eq plus_assign))
          (node_type (InternalNode n cs)) (InternalNode n cs, InternalNode m ds) = None"
    by (simp add: cs)
  then show ?thesis
    by (simp only: operator_plus_eq.simps bind option.case)
qed

lemma plus_eq_no_children:
  "operator_plus_eq plus_assign (InternalNode n []) (InternalNode m []) =
     Some (InternalNode n [], InternalNode m [])"
  by (simp add: bind_rhs_def)

lemma shape_compatible_cases:
  assumes "shape_compatible (node_type A) (node_type B)"
  shows "node_type B = node_type A \<or>
         (\<exists>n m cs ds. A = InternalNode n cs \<and> B = InternalNode m ds \<and> m \<noteq> n \<and>
            map node_type ds = map node_type cs)"
proof (cases A)
  case (LeafNode n t v)
  with assms show ?thesis by (cases B) auto
next
  case (InternalNode n cs)
  with assms show ?thesis by (cases B) auto
qed

lemma plus_eq_shape_compatible:
  assumes "well_formed (node_type A)" and "shape_compatible (node_type A) (node_type B)"
    and "operator_plus_eq plus_assign A B = Some (A', B')"
  shows "B' = B \<and> node_type A' = node_type A \<and>
         leaves A' = map2 (add_leaf plus_assign) (leaves A) (leaves B)"
proof -
  from shape_compatible_cases [OF assms(2)] show ?thesis
  proof
    assume "node_type B = node_type A"
    from plus_eq_same_type [OF assms(1) this, of plus_assign] assms(3) show ?thesis by auto
  next
    assume "\<exists>n m cs ds. A = InternalNode n cs \<and> B = InternalNode m ds \<and> m \<noteq> n \<and>
            map node_type ds = map node_type cs"
    then obtain n m cs ds where A: "A = InternalNode n cs" and B: "B = InternalNode m ds"
      and mn: "m \<noteq> n" and ds: "map node_type ds = map node_type cs" by blast
    show ?thesis
    proof (cases "cs = []")
      case True
      with ds have "ds = []" by simp
      with True A B assms(3) plus_eq_no_children [of plus_assign n m] show ?thesis by simp
    next
      case False
      from plus_eq_other_name [OF mn False ds, of plus_assign] assms(3) A B show ?thesis by simp
    qed
  qed
qed

lemma plus_eq_rejects:
  "\<not> well_formed (node_type A) \<Longrightarrow> node_type B = node_type A \<Longrightarrow>
   operator_plus_eq plus_assign A B = None"
proof (induction A arbitrary: B)
  case (LeafNode n t v)
  then show ?case by simp
next
  case (InternalNode n cs)
  let ?P = "InternalT n (map node_type cs)"
  let ?f = "operator_plus_eq plus_assign"
  from InternalNode.prems(2) obtain ds where b: "B = InternalNode n ds"
    and ds: "map node_type ds = map node_type cs" by (cases B) auto
  have bind: "bind_rhs (map node_type cs) B = Some B"
    by (simp add: bind_rhs_def b ds)
  have "inher_tree_scan (add_eq_apply ?f) (node_type (InternalNode n cs)) (InternalNode n cs, B) = None"
  proof (rule scan_rejects [where h = "add_child ?f ?P"])
    from InternalNode.prems(1) have "\<not> well_formed ?P" by simp
    then have "\<exists>c\<in>set cs.
        count_list (type_bases ?P) (node_type c) \<noteq> 1 \<or> \<not> well_formed (node_type c)"
      by (rule ill_formed_child)
    then obtain c where c: "c \<in> set cs"
      and bad: "count_list (type_bases ?P) (node_type c) \<noteq> 1 \<or> \<not> well_formed (node_type c)"
      by blast
    have "count_list (type_bases ?P) (node_type c) \<noteq> 1 \<or> (\<forall>x. add_child ?f ?P c x = None)"
    proof (cases "well_formed (node_type c)")
      case True
      with bad show ?thesis by simp
    next
      case False
      have "\<And>x. add_child ?f ?P c x = None"
        using InternalNode.IH [OF c False]
        by (auto simp: add_child_def split: option.splits dest: get_type)
      then show ?thesis by simp
    qed
    with c show "\<exists>c\<in>set cs. count_list (type_bases ?P) (node_type c) \<noteq> 1 \<or>
        (\<forall>x. add_child ?f ?P c x = None)" by blast
  next
    fix c x c' x'
    assume c: "c \<in> set cs" and h: "add_child ?f ?P c x = Some (c', x')"
    from h obtain b' cb cb' where cb: "get (node_type c) b' = Some cb" and r: "?f c cb = Some (c', cb')"
      by (auto simp: add_child_def split: option.splits)
    from cb have ty: "node_type cb = node_type c" by (rule get_type)
    show "node_type c' = node_type c"
    proof (cases "well_formed (node_type c)")
      case True
      from plus_eq_same_type [OF True ty, of plus_assign] r show ?thesis by auto
    next
      case False
      from InternalNode.IH [OF c False ty] r show ?thesis by simp
    qed
  next
    fix C a x
    show "add_eq_apply ?f ?P C (a, x) =
       (case get C a of
          None \<Rightarrow> None
        | Some d \<Rightarrow> (case add_child ?f ?P d x of None \<Rightarrow> None | Some (d', x') \<Rightarrow> Some (put C d' a, x')))"
      by (rule add_eq_apply_child)
  qed
  then show ?case by (simp only: operator_plus_eq.simps bind option.case)
qed

lemma plus_eq_accepted_iff:
  assumes "shape_compatible (node_type A) (node_type B)"
  shows "(operator_plus_eq plus_assign A B \<noteq> None) =
         (well_formed (node_type A) \<and> (node_type B = node_type A \<or> base_type (node_type A) = []))"
proof -
  from shape_compatible_cases [OF assms] show ?thesis
  proof
    assume ty: "node_type B = node_type A"
    show ?thesis
    proof (cases "well_formed (node_type A)")
      case True
      with plus_eq_same_type [OF True ty, of plus_assign] ty show ?thesis by auto
    next
      case False
      with plus_eq_rejects [OF False ty, of plus_assign] show ?thesis by simp
    qed
  next
    assume "\<exists>n m cs ds. A = InternalNode n cs \<and> B = InternalNode m ds \<and> m \<noteq> n \<and>
            map node_type ds = map node_type cs"
    then obtain n m cs ds where A: "A = InternalNode n cs" and B: "B = InternalNode m ds"
      and mn: "m \<noteq> n" and ds: "map node_type ds = map node_type cs" by blast
    show ?thesis
    proof (cases "cs = []")
      case True
      with ds have "ds = []" by simp
      with True A B plus_eq_no_children [of plus_assign n m] show ?thesis by simp
    next
      case False
      from plus_eq_other_name [OF mn False ds, of plus_assign] A B mn False show ?thesis by simp
    qed
  qed
qed

lemma plus_eq_accepted:
  assumes "shape_compatible (node_type A) (node_type B)"
    and "operator_plus_eq plus_assign A B = Some (A', B')"
  shows "B' = B \<and> node_type A' = node_type A \<and>
         leaves A' = map2 (add_leaf plus_assign) (leaves A) (leaves B)"
proof -
  from assms(2) have "operator_plus_eq plus_assign A B \<noteq> None" by simp
  then have "well_formed (node_type A)"
    by (simp only: plus_eq_accepted_iff [OF assms(1)])
  then show ?thesis using assms by (rule plus_eq_shape_compatible)
qed

lemma those_map_leaves:
  assumes "\<And>c. c \<in> set cs \<Longrightarrow>
     \<exists>c'. h c = Some c' \<and> node_type c' = node_type c \<and> leaves c' = map D (leaves c)"
  shows "\<exists>cs'. those (map h cs) = Some cs' \<and> map node_type cs' = map node_type cs \<and>
          concat (map leaves cs') = map D (concat (map leaves cs))"
  using assms
proof (induction cs)
  case Nil
  show ?case by simp
next
  case (Cons c cs)
  from Cons.prems [of c] obtain c' where
    c': "h c = Some c'" "node_type c' = node_type c" "leaves c' = map D (leaves c)"
    by auto
  from Cons.IH Cons.prems obtain cs' where
    cs': "those (map h cs) = Some cs'" "map node_type cs' = map node_type cs"
         "concat (map leaves cs') = map D (concat (map leaves cs))"
    by auto
  show ?case
    by (rule exI [of _ "c' # cs'"]) (simp add: c' cs')
qed

lemma plus_eq_self_doubles:
  "well_formed (node_type A) \<Longrightarrow>
   \<exists>A'. operator_plus_eq_self plus_assign A = Some A' \<and>
        node_type A' = node_type A \<and>
        leaves A' = map (\<lambda>(n, t, v). (n, t, plus_assign t v v)) (leaves A)"
proof (induction A)
  case (LeafNode n t v)
  show ?case by simp
next
  case (InternalNode n cs)
  let ?f = "operator_plus_eq_self plus_assign"
  let ?D = "\<lambda>(n, t, v). (n, t, plus_assign t v v)"
  have child: "\<And>c. c \<in> set cs \<Longrightarrow>
     \<exists>c'. ?f c = Some c' \<and> node_type c' = node_type c \<and> leaves c' = map ?D (leaves c)"
    using InternalNode.IH InternalNode.prems by simp
  have scan: "inher_tree_scan (add_eq_apply_self ?f) (node_type (InternalNode n cs)) (InternalNode n cs) =
           map_option (InternalNode n) (those (map ?f cs))"
  proof (rule scan_node_single)
    show "\<forall>T\<in>set (map node_type cs).
            count_list (type_bases (InternalT n (map node_type cs))) T = 1"
      using InternalNode.prems by simp
  next
    fix c c'
    assume "c \<in> set cs" "?f c = Some c'"
    with child [of c] show "node_type c' = node_type c" by auto
  next
    fix C a
    show "add_eq_apply_self ?f (InternalT n (map node_type cs)) C a =
       (case get C a of
          None \<Rightarrow> None
        | Some d \<Rightarrow> (case ?f d of None \<Rightarrow> None | Some d' \<Rightarrow> Some (put C d' a)))"
      by (simp add: add_eq_apply_self_def)
  qed
  from those_map_leaves [of cs ?f ?D, OF child] obtain cs' where
    cs': "those (map ?f cs) = Some cs'" "map node_type cs' = map node_type cs"
         "concat (map leaves cs') = map ?D (concat (map leaves cs))"
    by blast
  have "?f (InternalNode n cs) =
      inher_tree_scan (add_eq_apply_self ?f) (node_type (InternalNode n cs)) (InternalNode n cs)"
    by (simp only: operator_plus_eq_self.simps)
  also note scan
  finally have "?f (InternalNode n cs) = Some (InternalNode n cs')"
    by (simp add: cs')
  then show ?case
    by (intro exI [of _ "InternalNode n cs'"]) (simp add: cs')
qed

section \<open>The properties of the specification\<close>

text \<open>
  Claim C1. For every two shape-compatible trees \<open>A\<close> and \<open>B\<close>, every accepted combine
  \<open>A += B\<close> leaves in every leaf \<open>L\<close> of \<open>A\<close> the value \<open>A.L_before + B.L\<close>, the addition
  being that of the leaf's scalar type, and \<open>A\<close> keeps its type: the number, the types and
  the nesting of its children. Two trees of the same well-formed type are always accepted;
  where the compiler rejects the combine (\<open>None\<close>) there is none to speak of.
\<close>

theorem combine_adds_leafwise:
  assumes "shape_compatible (node_type A) (node_type B)"
  shows "(well_formed (node_type A) \<and> node_type B = node_type A \<longrightarrow>
            operator_plus_eq plus_assign A B \<noteq> None) \<and>
         (\<forall>A' B'. operator_plus_eq plus_assign A B = Some (A', B') \<longrightarrow>
            node_type A' = node_type A \<and>
            leaves A' = map2 (add_leaf plus_assign) (leaves A) (leaves B))"
proof (intro conjI impI allI)
  assume "well_formed (node_type A) \<and> node_type B = node_type A"
  with plus_eq_same_type [of A B plus_assign]
  show "operator_plus_eq plus_assign A B \<noteq> None" by auto
next
  fix A' B' assume r: "operator_plus_eq plus_assign A B = Some (A', B')"
  from plus_eq_accepted [OF assms r]
  show "node_type A' = node_type A"
    and "leaves A' = map2 (add_leaf plus_assign) (leaves A) (leaves B)" by simp_all
qed

text \<open>
  The scenario of the specification: \<open>bar.A = 2\<close> and \<open>foo.A = 3\<close> give \<open>bar.A = 5\<close> after
  \<open>bar += foo\<close>, and likewise at every other leaf.
\<close>

theorem combine_adds_leafwise_witness:
  "shape_compatible (node_type bar) (node_type foo) \<and>
   (\<exists>A' B'. operator_plus_eq (\<lambda>t. (+)) bar foo = Some (A', B') \<and> node_type A' = Bar \<and>
      leaves A' = [(''A'', CInt, 5), (''B'', CFloat, 11), (''D'', CDouble, 22),
                   (''E'', CLong, 33), (''F'', CDouble, 44), (''G'', CInt, 55)])"
proof -
  have wf: "well_formed (node_type bar)" by (simp add: bar_def)
  have sc: "shape_compatible (node_type bar) (node_type foo)" by (simp add: bar_def foo_def)
  have ty: "node_type foo = node_type bar" by (simp add: bar_def foo_def)
  note th = combine_adds_leafwise [OF sc, of "\<lambda>t. (+)"]
  from th wf ty obtain A' B' where r: "operator_plus_eq (\<lambda>t. (+)) bar foo = Some (A', B')"
    by (cases "operator_plus_eq (\<lambda>t. (+)) bar foo") auto
  with th have "node_type A' = node_type bar"
    and "leaves A' = map2 (add_leaf (\<lambda>t. (+))) (leaves bar) (leaves foo)" by blast+
  then have "node_type A' = Bar"
    and "leaves A' = [(''A'', CInt, 5), (''B'', CFloat, 11), (''D'', CDouble, 22),
                   (''E'', CLong, 33), (''F'', CDouble, 44), (''G'', CInt, 55)]"
    by (simp_all add: bar_def foo_def Bar_def add_leaf_def)
  with sc r show ?thesis by blast
qed

text \<open>
  Claim C2. For every well-formed tree \<open>T\<close>, \<open>print\<close> returns the tree as it was and appends
  to the output exactly the lines of the leaves of \<open>T\<close>, one line for each leaf and nothing
  else, in the declaration order of the leaves (depth first, a composite's leaves where the
  composite is declared): the line of a leaf is the prefix accumulated on the way to it,
  the leaf's name and its value. The names and scalar types of these leaves are those the
  type of \<open>T\<close> declares, in that order.
\<close>

theorem print_visits_each_leaf_once:
  assumes "well_formed (node_type T)"
  shows "print format T prefix cout =
           Some (T, cout @ concat (map (\<lambda>(path, n, t, v).
                    separator (foldl space_join prefix path) @ n @ '' == '' @ format t v @ endl)
                  (leaf_paths T))) \<and>
         map (\<lambda>(path, n, t, v). (n, t)) (leaf_paths T) = declared_leaves (node_type T) \<and>
         map snd (leaf_paths T) = leaves T"
proof (intro conjI)
  have "leaf_line format prefix = (\<lambda>(path, n, t, v).
      separator (foldl space_join prefix path) @ n @ '' == '' @ format t v @ endl)"
    by (rule ext) (simp add: leaf_line_def space_join_def separator_def case_prod_unfold)
  with print_exact [OF assms, of format prefix cout]
  show "print format T prefix cout =
           Some (T, cout @ concat (map (\<lambda>(path, n, t, v).
                    separator (foldl space_join prefix path) @ n @ '' == '' @ format t v @ endl)
                  (leaf_paths T)))"
    by simp
  show l: "map snd (leaf_paths T) = leaves T" by (rule leaf_paths_leaves)
  have "map (\<lambda>(path, n, t, v). (n, t)) (leaf_paths T) =
      map (\<lambda>(n, t, v). (n, t)) (map snd (leaf_paths T))"
    by (simp add: case_prod_unfold)
  then show "map (\<lambda>(path, n, t, v). (n, t)) (leaf_paths T) = declared_leaves (node_type T)"
    by (simp only: l leaves_declared)
qed

theorem print_visits_each_leaf_once_witness:
  "well_formed (node_type foo) \<and>
   print toy_format foo ''foo'' [] =
     Some (foo, ''foo one A == 3'' @ endl @ ''foo one B == 10'' @ endl @
                ''foo one two D == 20'' @ endl @ ''foo one two three E == 30'' @ endl @
                ''foo one F == 40'' @ endl @ ''foo one G == 50'' @ endl) \<and>
   declared_leaves (node_type foo) =
     [(''A'', CInt), (''B'', CFloat), (''D'', CDouble), (''E'', CLong), (''F'', CDouble), (''G'', CInt)]"
proof -
  note th = print_visits_each_leaf_once [OF wf_foo, of toy_format "''foo''" "[]"]
  have e: "concat (map (\<lambda>(path, n, t, v).
                    separator (foldl space_join ''foo'' path) @ n @ '' == '' @ toy_format t v @ endl)
                  (leaf_paths foo)) =
        ''foo one A == 3'' @ endl @ ''foo one B == 10'' @ endl @
                ''foo one two D == 20'' @ endl @ ''foo one two three E == 30'' @ endl @
                ''foo one F == 40'' @ endl @ ''foo one G == 50'' @ endl"
    by code_simp
  have d: "map (\<lambda>(path, n, t, v). (n, t)) (leaf_paths foo) =
     [(''A'', CInt), (''B'', CFloat), (''D'', CDouble), (''E'', CLong), (''F'', CDouble), (''G'', CInt)]"
    by (simp add: leaf_paths_foo)
  from th e d wf_foo show ?thesis by simp
qed

text \<open>
  The scan with parameters that are lvalues, as in every call of the source file
  (\<^verbatim>\<open>Params\<close> is then a reference type and \<^verbatim>\<open>std::forward\<close> passes the reference on): for
  every internal node, every functor and every state, \<open>inher_tree_scan\<close> is the composition
  of the functor's \<^verbatim>\<open>apply<Parent, Child>\<close> over the direct children in declaration order,
  each call receiving the state the previous call left, and a rejected call rejects the
  scan. A node without children is left as it is. A functor that records the parameters
  \<open>ps\<close> it finds and leaves them alone records one entry per child, each with the same
  \<open>ps\<close>. A functor that leaves \<open>m\<close> in place of the parameters it was given, as a by-value
  parameter constructed from an rvalue does, records the given \<open>ps\<close> for the first child
  only and \<open>m\<close> for every other child.
\<close>

lemma scan_lvalue_parameters:
  "inher_tree_scan func (node_type (InternalNode n cs)) s =
     fold (\<lambda>Child r. Option.bind r (func (node_type (InternalNode n cs)) Child))
       (map node_type cs) (Some s)
   \<and> inher_tree_scan func (node_type (InternalNode n [])) s = Some s
   \<and> inher_tree_scan (\<lambda>Parent Child (ps, calls). Some (ps, calls @ [(Parent, Child, ps)]))
        (node_type (InternalNode n cs)) (ps, []) =
      Some (ps, map (\<lambda>c. (node_type (InternalNode n cs), node_type c, ps)) cs)"
proof -
  let ?P = "node_type (InternalNode n cs)"
  have a: "\<And>f s. inher_tree_scan f ?P s =
      fold (\<lambda>Child r. Option.bind r (f ?P Child)) (map node_type cs) (Some s)"
    using scan_recur_fold [where Bs = "map node_type cs"] by simp
  have b: "fold (\<lambda>Child r. Option.bind r (\<lambda>(ps, calls). Some (ps, calls @ [(?P, Child, ps)])))
       (map node_type cs) (Some (ps, [])) =
     Some (ps, [] @ map (\<lambda>C. (?P, C, ps)) (map node_type cs))"
    by (rule fold_record_state [where g = "\<lambda>C ps. (?P, C, ps)"])
  show ?thesis
    by (simp only: a b) (simp add: comp_def)
qed

lemma scan_moved_parameters:
  "inher_tree_scan (\<lambda>Parent Child (ps, calls). Some (m, calls @ [(Child, ps)]))
     (node_type (InternalNode n (c # cs))) (ps, []) =
   Some (m, (node_type c, ps) # map (\<lambda>c. (node_type c, m)) cs)"
proof -
  let ?P = "node_type (InternalNode n (c # cs))"
  have P: "?P = InternalT n (map node_type (c # cs))" by simp
  have "inher_tree_scan (\<lambda>Parent Child (ps, calls). Some (m, calls @ [(Child, ps)])) ?P (ps, []) =
      fold (\<lambda>Child r. Option.bind r (\<lambda>(ps, calls). Some (m, calls @ [(Child, ps)])))
        (map node_type (c # cs)) (Some (ps, []))"
    by (simp only: P scan_fold)
  also have "\<dots> = fold (\<lambda>Child r. Option.bind r (\<lambda>(ps, calls). Some (m, calls @ [(Child, ps)])))
        (map node_type cs) (Some (m, [(node_type c, ps)]))"
    by simp
  also have "\<dots> = Some (m, [(node_type c, ps)] @ map (\<lambda>C. (C, m)) (map node_type cs))"
    by (rule fold_record_moved [where g = "\<lambda>C ps. (C, ps)"])
  finally show ?thesis by (simp add: comp_def)
qed

text \<open>
  Claim C3, at the call \<^verbatim>\<open>inher_tree_scan<print_f>(foo, std::string("foo"))\<close> on the tree
  \<open>foo\<close> of \<^verbatim>\<open>main\<close>, the parameter an rvalue: the engine forwards the same pack once to
  \<^verbatim>\<open>apply\<close> (line 94) and once more to the recursive call (line 102), so the first child is
  printed under the prefix \<open>foo\<close> and every later child under the moved-from string, here
  the empty one. The parameters do not reach every invocation unchanged. With the prefix
  an lvalue every line carries \<open>foo\<close>. On a leaf node, which has no \<^verbatim>\<open>base_type\<close>, the scan
  is rejected and not a no-op.
\<close>

theorem inher_tree_scan_forwards_twice:
  "inher_tree_scan (print_f_apply_rvalue [] (print toy_format)) (node_type foo) (foo, ''foo'', []) =
     Some (foo, [],
       ''foo A == 3'' @ endl @ ''B == 10'' @ endl @ ''two D == 20'' @ endl @
       ''two three E == 30'' @ endl @ ''F == 40'' @ endl @ ''G == 50'' @ endl) \<and>
   inher_tree_scan (print_f_apply (print toy_format)) (node_type foo) (foo, ''foo'', []) =
     Some (foo, ''foo'',
       ''foo A == 3'' @ endl @ ''foo B == 10'' @ endl @ ''foo two D == 20'' @ endl @
       ''foo two three E == 30'' @ endl @ ''foo F == 40'' @ endl @ ''foo G == 50'' @ endl) \<and>
   inher_tree_scan (print_f_apply (print toy_format)) (node_type (LeafNode ''A'' CInt 3))
       (LeafNode ''A'' CInt 3, ''foo'', []) = None"
  by code_simp

text \<open>
  Claim C4, at two composites with the same child-type sequence and different names,
  \<^verbatim>\<open>InternalNode<mpl::string<'x'>, LeafNode<mpl::string<'A'>, int>>\<close> and the same under the
  name \<^verbatim>\<open>'y'\<close>: they are shape compatible, yet \<open>a += b\<close> is rejected, because
  \<^verbatim>\<open>add_eq::apply\<close> takes both operands as \<^verbatim>\<open>Parent&\<close>, the type of the left one. Under the
  same name the combine is accepted and adds.
\<close>

theorem combine_rejects_other_name:
  "shape_compatible (node_type (InternalNode ''x'' [LeafNode ''A'' CInt (2::int)]))
                    (node_type (InternalNode ''y'' [LeafNode ''A'' CInt (3::int)])) \<and>
   operator_plus_eq (\<lambda>t. (+)) (InternalNode ''x'' [LeafNode ''A'' CInt (2::int)])
                               (InternalNode ''y'' [LeafNode ''A'' CInt 3]) = None \<and>
   operator_plus_eq (\<lambda>t. (+)) (InternalNode ''x'' [LeafNode ''A'' CInt (2::int)])
                               (InternalNode ''x'' [LeafNode ''A'' CInt 3]) =
     Some (InternalNode ''x'' [LeafNode ''A'' CInt 5], InternalNode ''x'' [LeafNode ''A'' CInt 3])"
  by code_simp

text \<open>
  Claim C5, as the code has it. For every well-formed tree, \<open>print\<close> writes for every leaf
  exactly one line, in declaration order. With \<open>acc\<close> the prefix accumulated on the way to
  the leaf (the caller's prefix and then the name of every internal node from the root
  down, joined by spaces), the line is \<^verbatim>\<open><acc> <name> == <value>\<close> when \<open>acc\<close> is not empty and
  \<^verbatim>\<open><name> == <value>\<close>, with no space in front, when it is empty.
\<close>

theorem print_line_format:
  assumes "well_formed (node_type T)"
  shows "print format T prefix cout =
           Some (T, cout @ concat (map (\<lambda>(path, n, t, v).
                    (let acc = foldl space_join prefix path
                     in if acc = [] then n @ '' == '' @ format t v @ endl
                        else prefixed_line acc n (format t v)))
                  (leaf_paths T)))"
proof -
  have "leaf_line format prefix = (\<lambda>(path, n, t, v).
                    (let acc = foldl space_join prefix path
                     in if acc = [] then n @ '' == '' @ format t v @ endl
                        else prefixed_line acc n (format t v)))"
    by (rule ext) (simp add: leaf_line_def space_join_def prefixed_line_def case_prod_unfold)
  with print_exact [OF assms, of format prefix cout] show ?thesis by simp
qed

theorem print_line_format_witness:
  "well_formed (node_type foo) \<and>
   print toy_format foo ''foo'' [] =
     Some (foo, ''foo one A == 3'' @ endl @ ''foo one B == 10'' @ endl @
                ''foo one two D == 20'' @ endl @ ''foo one two three E == 30'' @ endl @
                ''foo one F == 40'' @ endl @ ''foo one G == 50'' @ endl)"
proof -
  have "concat (map (\<lambda>(path, n, t, v).
                    (let acc = foldl space_join ''foo'' path
                     in if acc = [] then n @ '' == '' @ toy_format t v @ endl
                        else prefixed_line acc n (toy_format t v)))
                  (leaf_paths foo)) =
        ''foo one A == 3'' @ endl @ ''foo one B == 10'' @ endl @
                ''foo one two D == 20'' @ endl @ ''foo one two three E == 30'' @ endl @
                ''foo one F == 40'' @ endl @ ''foo one G == 50'' @ endl"
    by code_simp
  with print_line_format [OF wf_foo, of toy_format "''foo''" "[]"] wf_foo
  show ?thesis by simp
qed

text \<open>
  Claim C5 as stated fails where the accumulated prefix is empty: a leaf printed with the
  default prefix, or below a composite whose name is empty, writes \<^verbatim>\<open>A == 5\<close> and not the
  line \<^verbatim>\<open> A == 5\<close> of the stated form, by the guard \<^verbatim>\<open>if (prefix != "") prefix += " "\<close>.
\<close>

theorem print_line_format_counterexample:
  "print toy_format (LeafNode ''A'' CInt 5) [] [] =
     Some (LeafNode ''A'' CInt 5, ''A == 5'' @ endl) \<and>
   prefixed_line [] ''A'' (toy_format CInt 5) = '' A == 5'' @ endl \<and>
   ''A == 5'' @ endl \<noteq> '' A == 5'' @ endl \<and>
   print toy_format (InternalNode [] [LeafNode ''A'' CInt 5]) [] [] =
     Some (InternalNode [] [LeafNode ''A'' CInt 5], ''A == 5'' @ endl)"
  by code_simp

text \<open>
  Claim C6. For every well-formed tree, \<open>rand_gen\<close> returns a tree whose leaves have the
  names and scalar types the type declares, as many as the tree had, and \<open>print\<close> on that
  tree returns as well and appends exactly the lines of its leaves, one line for each leaf
  and nothing else. Neither function has a failing path: the source has no \<^verbatim>\<open>throw\<close>, and
  the library's distribution, conversion and \<^verbatim>\<open>operator<<\<close> on scalars are total.
\<close>

theorem rand_gen_then_print:
  assumes "well_formed (node_type T)"
  shows "\<exists>T' gen'.
           rand_gen normal_distribution static_cast T gen = Some (T', gen') \<and>
           map (\<lambda>(path, n, t, v). (n, t)) (leaf_paths T') = declared_leaves (node_type T) \<and>
           length (leaf_paths T') = length (leaves T) \<and>
           print format T' prefix cout =
             Some (T', cout @ concat (map (\<lambda>(path, n, t, v).
                      separator (foldl space_join prefix path) @ n @ '' == '' @ format t v @ endl)
                    (leaf_paths T')))"
proof -
  from rand_gen_samples [OF assms, of normal_distribution static_cast gen] obtain T' gen' where
    r: "rand_gen normal_distribution static_cast T gen = Some (T', gen')"
       "node_type T' = node_type T"
    by blast
  have wf: "well_formed (node_type T')" using assms r(2) by simp
  have ll: "map snd (leaf_paths T') = leaves T'" by (rule leaf_paths_leaves)
  have "map (\<lambda>(path, n, t, v). (n, t)) (leaf_paths T') =
      map (\<lambda>(n, t, v). (n, t)) (map snd (leaf_paths T'))"
    by (simp add: case_prod_unfold)
  then have d: "map (\<lambda>(path, n, t, v). (n, t)) (leaf_paths T') = declared_leaves (node_type T)"
    by (simp only: ll leaves_declared r(2))
  have "length (leaf_paths T') = length (leaves T')"
    using arg_cong [OF ll, of length] by simp
  then have len: "length (leaf_paths T') = length (leaves T)"
    using leaves_length [OF r(2)] by simp
  have "leaf_line format prefix = (\<lambda>(path, n, t, v).
      separator (foldl space_join prefix path) @ n @ '' == '' @ format t v @ endl)"
    by (rule ext) (simp add: leaf_line_def space_join_def separator_def case_prod_unfold)
  with print_exact [OF wf, of format prefix cout]
  have "print format T' prefix cout =
             Some (T', cout @ concat (map (\<lambda>(path, n, t, v).
                      separator (foldl space_join prefix path) @ n @ '' == '' @ format t v @ endl)
                    (leaf_paths T')))"
    by simp
  with r(1) d len show ?thesis by blast
qed

theorem rand_gen_then_print_witness:
  "well_formed (node_type foo) \<and> length (leaves foo) = 6 \<and>
   (\<exists>T' gen'.
      rand_gen toy_normal_distribution toy_static_cast foo 0 = Some (T', gen') \<and>
      map (\<lambda>(path, n, t, v). (n, t)) (leaf_paths T') = declared_leaves (node_type foo) \<and>
      length (leaf_paths T') = length (leaves foo) \<and>
      print toy_format T' ''foo'' [] =
        Some (T', [] @ concat (map (\<lambda>(path, n, t, v).
                 separator (foldl space_join ''foo'' path) @ n @ '' == '' @ toy_format t v @ endl)
               (leaf_paths T'))))"
proof -
  have l: "length (leaves foo) = 6" by (simp add: leaves_foo)
  from rand_gen_then_print [OF wf_foo, of toy_normal_distribution toy_static_cast 0 toy_format "''foo''" "[]"]
    wf_foo l
  show ?thesis by blast
qed

text \<open>
  Claim C7. For every well-formed tree, \<open>rand_gen\<close> assigns to the \<open>i\<close>-th leaf in declaration
  order the sample that \<^verbatim>\<open>std::normal_distribution<>{100, 50}\<close> draws from the generator as
  the \<open>i\<close> draws before it left it, converted by \<^verbatim>\<open>static_cast\<close> to the leaf's declared
  scalar type: one fresh sample for each leaf. The tree keeps its type and its leaves their
  names, and the generator is returned as the last draw left it. The composite nodes only
  pass the generator on to their children. The law of the samples is that of the library's
  distribution, a parameter here.
\<close>

theorem rand_gen_one_sample_per_leaf:
  assumes "well_formed (node_type T)"
  shows "\<exists>T'. rand_gen normal_distribution static_cast T gen =
                Some (T', ((snd \<circ> normal_distribution 100 50) ^^ length (leaves T)) gen) \<and>
              node_type T' = node_type T \<and>
              length (leaves T') = length (leaves T) \<and>
              (\<forall>i<length (leaves T).
                 leaves T' ! i =
                   (case leaves T ! i of (n, t, v) \<Rightarrow>
                      (n, t, static_cast t
                         (fst (normal_distribution 100 50
                            (((snd \<circ> normal_distribution 100 50) ^^ i) gen))))))"
proof -
  let ?dist = "normal_distribution 100 50"
  from rand_gen_samples [OF assms, of normal_distribution static_cast gen] obtain T' where
    r: "rand_gen normal_distribution static_cast T gen =
          Some (T', snd (samples ?dist static_cast (leaves T) gen))"
       "node_type T' = node_type T"
       "leaves T' = fst (samples ?dist static_cast (leaves T) gen)"
    by blast
  have "rand_gen normal_distribution static_cast T gen =
      Some (T', ((snd \<circ> ?dist) ^^ length (leaves T)) gen)"
    using r(1) by (simp only: samples_generator)
  moreover have "length (leaves T') = length (leaves T)"
    using r(3) by (simp only: samples_length)
  moreover have "\<forall>i<length (leaves T).
      leaves T' ! i =
        (case leaves T ! i of (n, t, v) \<Rightarrow>
           (n, t, static_cast t (fst (?dist (((snd \<circ> ?dist) ^^ i) gen)))))"
    unfolding r(3) by (intro allI impI) (rule samples_nth)
  ultimately show ?thesis using r(2) by blast
qed

theorem rand_gen_one_sample_per_leaf_witness:
  "well_formed (node_type foo) \<and>
   (\<exists>T'. rand_gen toy_normal_distribution toy_static_cast foo 0 = Some (T', 6) \<and>
         node_type T' = Bar \<and> length (leaves T') = 6 \<and>
         leaves T' ! 0 = (''A'', CInt, 100) \<and> leaves T' ! 1 = (''B'', CFloat, 150) \<and>
         leaves T' ! 2 = (''D'', CDouble, 200) \<and> leaves T' ! 3 = (''E'', CLong, 250) \<and>
         leaves T' ! 4 = (''F'', CDouble, 300) \<and> leaves T' ! 5 = (''G'', CInt, 350))"
proof -
  let ?dist = "toy_normal_distribution 100 50"
  have step: "\<And>k g. ((snd \<circ> ?dist) ^^ k) g = g + int k"
  proof -
    fix k g show "((snd \<circ> ?dist) ^^ k) g = g + int k"
      by (induction k) (simp_all add: toy_normal_distribution_def)
  qed
  from rand_gen_one_sample_per_leaf [OF wf_foo, of toy_normal_distribution toy_static_cast 0]
  obtain T' where
    r: "rand_gen toy_normal_distribution toy_static_cast foo 0 =
          Some (T', ((snd \<circ> ?dist) ^^ length (leaves foo)) 0)"
       "node_type T' = node_type foo" "length (leaves T') = length (leaves foo)"
    and nth: "\<forall>i<length (leaves foo). leaves T' ! i =
        (case leaves foo ! i of (n, t, v) \<Rightarrow>
           (n, t, toy_static_cast t (fst (?dist (((snd \<circ> ?dist) ^^ i) 0)))))"
    by blast
  have l: "length (leaves foo) = 6" by (simp add: leaves_foo)
  have a: "rand_gen toy_normal_distribution toy_static_cast foo 0 = Some (T', 6)"
    using r(1) by (simp only: l step) simp
  have b: "node_type T' = Bar" using r(2) by (simp add: foo_type)
  have c: "length (leaves T') = 6" using r(3) l by simp
  have n: "\<And>i. i < 6 \<Longrightarrow> leaves T' ! i =
        (case leaves foo ! i of (n, t, v) \<Rightarrow> (n, t, 100 + 50 * int i))"
    using nth l by (simp add: step toy_static_cast_def toy_normal_distribution_def)
  have "leaves T' ! 0 = (''A'', CInt, 100)" "leaves T' ! 1 = (''B'', CFloat, 150)"
    "leaves T' ! 2 = (''D'', CDouble, 200)" "leaves T' ! 3 = (''E'', CLong, 250)"
    "leaves T' ! 4 = (''F'', CDouble, 300)" "leaves T' ! 5 = (''G'', CInt, 350)"
    using n [of 0] n [of 1] n [of 2] n [of 3] n [of 4] n [of 5]
    by (simp_all add: leaves_foo)
  with a b c wf_foo show ?thesis by blast
qed

text \<open>
  Claim C8. For every well-formed tree, \<open>print\<close> called twice in succession with the same
  prefix returns the tree unchanged both times and appends the same bytes \<open>out\<close> to the
  output both times.
\<close>

theorem print_twice_same_output:
  assumes "well_formed (node_type T)"
  shows "\<exists>out. print format T prefix cout = Some (T, cout @ out) \<and>
               print format T prefix (cout @ out) = Some (T, (cout @ out) @ out)"
  by (intro exI conjI) (rule print_exact [OF assms])+

theorem print_twice_same_output_witness:
  "well_formed (node_type foo) \<and>
   (\<exists>out. print toy_format foo ''foo'' [] = Some (foo, [] @ out) \<and>
          print toy_format foo ''foo'' ([] @ out) = Some (foo, ([] @ out) @ out))"
  using print_twice_same_output [OF wf_foo, of toy_format "''foo''" "[]"] wf_foo
  by blast

text \<open>
  Claim C9, amended. For every two shape-compatible trees \<open>A\<close> and \<open>B\<close> that are two
  different objects, every accepted combine \<open>A += B\<close> returns the right operand as it was,
  every leaf with the value it had, although it is passed by reference to a non-const
  object; two trees of the same well-formed type are always accepted. When the right
  operand is the left object itself, \<open>A += A\<close>, the combine is accepted for every
  well-formed type and every leaf \<open>L\<close> of the operand becomes \<open>L + L\<close>.
\<close>

theorem combine_keeps_rhs:
  assumes "shape_compatible (node_type A) (node_type B)"
  shows "(well_formed (node_type A) \<and> node_type B = node_type A \<longrightarrow>
            (\<exists>A'. operator_plus_eq plus_assign A B = Some (A', B))) \<and>
         (\<forall>A' B'. operator_plus_eq plus_assign A B = Some (A', B') \<longrightarrow>
            B' = B \<and> leaves B' = leaves B) \<and>
         (well_formed (node_type A) \<longrightarrow>
            (\<exists>A'. operator_plus_eq_self plus_assign A = Some A' \<and>
                  node_type A' = node_type A \<and>
                  leaves A' = map (\<lambda>(n, t, v). (n, t, plus_assign t v v)) (leaves A)))"
proof (intro conjI impI allI)
  assume "well_formed (node_type A) \<and> node_type B = node_type A"
  with plus_eq_same_type [of A B plus_assign]
  show "\<exists>A'. operator_plus_eq plus_assign A B = Some (A', B)" by auto
next
  fix A' B' assume r: "operator_plus_eq plus_assign A B = Some (A', B')"
  from plus_eq_accepted [OF assms r]
  show "B' = B" and "leaves B' = leaves B" by simp_all
next
  assume "well_formed (node_type A)"
  then show "\<exists>A'. operator_plus_eq_self plus_assign A = Some A' \<and>
                  node_type A' = node_type A \<and>
                  leaves A' = map (\<lambda>(n, t, v). (n, t, plus_assign t v v)) (leaves A)"
    by (rule plus_eq_self_doubles)
qed

theorem combine_keeps_rhs_witness:
  "shape_compatible (node_type bar) (node_type foo) \<and>
   (\<exists>A'. operator_plus_eq (\<lambda>t. (+)) bar foo = Some (A', foo)) \<and>
   (\<exists>A'. operator_plus_eq_self (\<lambda>t. (+)) bar = Some A' \<and>
      leaves A' = [(''A'', CInt, 4), (''B'', CFloat, 2), (''D'', CDouble, 4),
                   (''E'', CLong, 6), (''F'', CDouble, 8), (''G'', CInt, 10)])"
proof -
  have wf: "well_formed (node_type bar)" by (simp add: bar_def)
  have sc: "shape_compatible (node_type bar) (node_type foo)" by (simp add: bar_def foo_def)
  have ty: "node_type foo = node_type bar" by (simp add: bar_def foo_def)
  have d: "map (\<lambda>(n, t, v). (n, t, (\<lambda>t. (+)) t v v)) (leaves bar) =
      [(''A'', CInt, 4), (''B'', CFloat, 2), (''D'', CDouble, 4),
       (''E'', CLong, 6), (''F'', CDouble, 8), (''G'', CInt, 10)]"
    by (simp add: leaves_bar)
  from combine_keeps_rhs [OF sc, of "\<lambda>t. (+)"] ty wf sc d show ?thesis by metis
qed

text \<open>
  Claim C9 as stated fails for \<^verbatim>\<open>bar += bar\<close> on the tree \<open>bar\<close> of \<^verbatim>\<open>main\<close>: a tree is shape
  compatible with itself, and the combine doubles every leaf of the right operand, which
  is the left one.
\<close>

theorem combine_self_changes_rhs:
  "shape_compatible (node_type bar) (node_type bar) \<and>
   map_option leaves (operator_plus_eq_self (\<lambda>t. (+)) bar) =
     Some [(''A'', CInt, 4), (''B'', CFloat, 2), (''D'', CDouble, 4),
           (''E'', CLong, 6), (''F'', CDouble, 8), (''G'', CInt, 10)] \<and>
   map_option leaves (operator_plus_eq_self (\<lambda>t. (+)) bar) \<noteq> Some (leaves bar)"
  by code_simp

text \<open>
  Claim C10. A default-constructed tree of any declared type \<open>T\<close> has, at every leaf the
  type declares, the zero of the leaf's scalar type, and it has the type \<open>T\<close>.
\<close>

theorem construct_leaves_zero:
  "leaves (construct zero_of T) = map (\<lambda>(n, t). (n, t, zero_of t)) (declared_leaves T)
   \<and> node_type (construct zero_of T) = T"
proof
  show "leaves (construct zero_of T) = map (\<lambda>(n, t). (n, t, zero_of t)) (declared_leaves T)"
  proof (induction T)
    case (LeafT n t)
    show ?case by simp
  next
    case (InternalT n cs)
    have e: "map (\<lambda>c. leaves (construct zero_of c)) cs =
        map (\<lambda>c. map (\<lambda>(n, t). (n, t, zero_of t)) (declared_leaves c)) cs"
      by (rule map_cong [OF refl]) (rule InternalT.IH)
    show ?case by (simp add: map_concat comp_def e)
  qed
  show "node_type (construct zero_of T) = T" by (rule construct_type)
qed

theorem construct_leaves_zero_witness:
  "leaves (construct (\<lambda>t. 0::int) Bar) =
     [(''A'', CInt, 0), (''B'', CFloat, 0), (''D'', CDouble, 0), (''E'', CLong, 0),
      (''F'', CDouble, 0), (''G'', CInt, 0)]"
  using construct_leaves_zero [of "\<lambda>t. 0::int" Bar] by (simp add: Bar_def)

end
